theory Spec2Isabelle
  imports Main "HOL-Library.AList"
begin

section \<open>Data model\<close>

text \<open>
  Runtime values that can appear in a resolved config: \<open>undefined\<close>, \<open>null\<close>, booleans,
  numbers (an integer stands for the number), strings and plain objects. An object is the
  list of its own enumerable properties in \<open>Object.keys\<close> order; a JavaScript object has
  each key once. (JavaScript lists integer-like keys first; no result below depends on where
  a key stands.) Two kinds of built-in value reach a config through the prototype chain of
  the environment object: a built-in function of \<open>Object.prototype\<close>, named here by the
  property that holds it, and \<open>Object.prototype\<close> itself. Arrays and other functions as
  config values are not modelled.
\<close>

datatype jsval =
    Undefined
  | Null
  | Bool bool
  | Num int
  | Str string
  | Obj "(string \<times> jsval) list"
  | Fun string
  | ObjectPrototype

text \<open>
  \<open>new Error(message)\<close>, and the two built-in exceptions the code can run into. The same
  type serves for the errors the resolver collects and for what a call raises.
\<close>

datatype error = Error (message: string) | TypeError | SyntaxError

text \<open>
  \<open>env: { [key: string]: string | undefined }\<close>: the own properties of the environment
  object. The object itself is a plain object (as is \<open>process.env\<close> for this purpose): what
  it does not have as an own property it inherits from \<open>Object.prototype\<close>.
\<close>

type_synonym env = "string \<rightharpoonup> string"

text \<open>
  \<open>TransformFn\<close>: user code called by the resolver with whatever the lookup found. A
  JavaScript function may throw, so a transform returns either what it raised or its
  value.
\<close>

type_synonym transformFn = "jsval \<Rightarrow> error + jsval"

text \<open>
  A schema value, by the runtime shape the resolver tests for: a string, a
  \<open>TransformTuple\<close> (an array), an \<open>InsertValue\<close>, a \<open>SecretValue\<close> (whose payload
  \<open>secret(value: any)\<close> does not restrict) and a nested \<open>ConfigWithEnvKeys\<close> object, given
  by its entries in \<open>Object.keys\<close> order.
\<close>

datatype node =
    EnvKey string
  | Transform string transformFn
  | Insert jsval
  | Secret node
  | Nested "(string \<times> node) list"

type_synonym schema = "(string \<times> node) list"

section \<open>Objects\<close>

text \<open>
  \<open>{...a, ...b}\<close>: the properties of \<open>b\<close> are assigned in order onto a copy of \<open>a\<close>; an
  assignment to an existing key keeps the key's position, a new key goes to the end.
\<close>

definition spread :: "(string \<times> 'a) list \<Rightarrow> (string \<times> 'a) list \<Rightarrow> (string \<times> 'a) list" where
  "spread a b = fold (\<lambda>(k, v). AList.update k v) b a"

section \<open>Resolver\<close>

definition missing_message :: "string \<Rightarrow> string \<Rightarrow> string" where
  "missing_message key subPath =
     ''environment value '' @ key @ '' is missing from config object at '' @ subPath"

text \<open>
  The properties of \<open>Object.prototype\<close>, which every plain object inherits: its built-in
  functions, each with its \<open>length\<close> (the number of declared parameters), and the accessor
  \<open>__proto__\<close>, which reads as \<open>Object.prototype\<close> itself.
\<close>

definition object_prototype_functions :: "(string \<times> nat) list" where
  "object_prototype_functions =
     [(''constructor'', 1), (''__defineGetter__'', 2), (''__defineSetter__'', 2),
      (''hasOwnProperty'', 1), (''__lookupGetter__'', 1), (''__lookupSetter__'', 1),
      (''isPrototypeOf'', 1), (''propertyIsEnumerable'', 1), (''toString'', 0),
      (''valueOf'', 0), (''toLocaleString'', 0)]"

definition inherited_names :: "string list" where
  "inherited_names = ''__proto__'' # map fst object_prototype_functions"

definition inherited :: "string \<Rightarrow> jsval" where
  "inherited key =
     (if key = ''__proto__'' then ObjectPrototype
      else if key \<in> set (map fst object_prototype_functions) then Fun key
      else Undefined)"

text \<open>
  \<open>env[key]\<close>: the own property, or else what the prototype holds under that name. (The
  \<open>toString\<close> slot of the prototype may hold the closure that \<open>verify\<close> puts there; like the
  built-in function it is a function of length 0 without enumerable properties, and
  nothing below tells the two apart.)
\<close>

definition env_get :: "env \<Rightarrow> string \<Rightarrow> jsval" where
  "env_get env key = (case env key of Some v \<Rightarrow> Str v | None \<Rightarrow> inherited key)"

text \<open>\<open>envValue.length\<close>, when it is a number, for the values a lookup can give.\<close>

fun length_of :: "jsval \<Rightarrow> nat option" where
  "length_of (Str s) = Some (length s)"
| "length_of (Fun f) = map_of object_prototype_functions f"
| "length_of _ = None"

text \<open>\<open>getEnvValueOrErrorCurried(env, subPath)(key)\<close>\<close>

definition getEnvValueOrErrorCurried ::
  "env \<Rightarrow> string \<Rightarrow> string \<Rightarrow> jsval \<times> error list" where
  "getEnvValueOrErrorCurried env subPath key =
     (let envValue = env_get env key
      in if envValue = Undefined \<or> length_of envValue = Some 0
         then (Undefined, [Error (missing_message key subPath)])
         else (envValue, []))"

text \<open>Whether a value counts as true, for \<open>envValue && transformFn(envValue)\<close>.\<close>

fun truthy :: "jsval \<Rightarrow> bool" where
  "truthy Undefined = False"
| "truthy Null = False"
| "truthy (Bool b) = b"
| "truthy (Num n) = (n \<noteq> 0)"
| "truthy (Str s) = (s \<noteq> [])"
| "truthy _ = True"

definition unwrapMaybeSecret :: "node \<Rightarrow> string \<Rightarrow> node \<times> string list" where
  "unwrapMaybeSecret maybeSecret path =
     (case maybeSecret of Secret s \<Rightarrow> (s, [path]) | _ \<Rightarrow> (maybeSecret, []))"

text \<open>The accumulator of \<open>reduceConf\<close>, which is also what \<open>recursiveVerify\<close> returns.\<close>

record resolved =
  config :: "(string \<times> jsval) list"
  errors :: "error list"
  secrets :: "string list"

type_synonym mapped = "(string \<times> jsval) list \<times> error list \<times> string list"

definition reduceConf :: "resolved \<Rightarrow> mapped \<Rightarrow> resolved" where
  "reduceConf acc m =
     (case m of (config', errors', secrets') \<Rightarrow>
        \<lparr> config = spread (config acc) config',
          errors = errors acc @ errors',
          secrets = secrets acc @ secrets' \<rparr>)"

definition subPathOf :: "string \<Rightarrow> string \<Rightarrow> string" where
  "subPathOf path key = (if length path = 0 then key else path @ ''.'' @ key)"

lemma size_unwrapMaybeSecret [termination_simp]:
  "size (fst (unwrapMaybeSecret n p)) \<le> size n"
  by (cases n) (simp_all add: unwrapMaybeSecret_def)

text \<open>
  \<open>getMapConfigFunction({config, env, path})(key)\<close>, given the entry \<open>config[key]\<close>, and
  \<open>recursiveVerify\<close>. \<open>Object.keys(config).map(mapConf)\<close> visits the entries in order
  (\<open>mapConfs\<close>); the first transform that raises ends the call. In the last branch the
  value is an object: a nested schema, or a \<open>SecretValue\<close> left after one unwrapping,
  whose only own property is \<open>secret\<close>.
\<close>

function (sequential)
  getMapConfigFunction :: "env \<Rightarrow> string \<Rightarrow> string \<Rightarrow> node \<Rightarrow> error + mapped" and
  mapConfs :: "env \<Rightarrow> string \<Rightarrow> schema \<Rightarrow> error + mapped list" and
  recursiveVerify :: "schema \<Rightarrow> env \<Rightarrow> string \<Rightarrow> error + resolved"
where
  "getMapConfigFunction env path key maybeSecret =
     (let subPath = subPathOf path key;
          getEnvValueOrError = getEnvValueOrErrorCurried env subPath;
          unwrapped = unwrapMaybeSecret maybeSecret subPath;
          value = fst unwrapped;
          secs = snd unwrapped
      in case value of
           Insert v \<Rightarrow> Inr ([(key, v)], [], secs)
         | Transform envKey transformFn \<Rightarrow>
             (case getEnvValueOrError envKey of
                (envValue, errs) \<Rightarrow>
                  if truthy envValue
                  then (case transformFn envValue of
                          Inl e \<Rightarrow> Inl e
                        | Inr transforedValue \<Rightarrow> Inr ([(key, transforedValue)], errs, secs))
                  else Inr ([(key, envValue)], errs, secs))
         | EnvKey name \<Rightarrow>
             (case getEnvValueOrError name of
                (envValue, errs) \<Rightarrow> Inr ([(key, envValue)], errs, secs))
         | Nested entries \<Rightarrow>
             (case recursiveVerify entries env subPath of
                Inl e \<Rightarrow> Inl e
              | Inr r \<Rightarrow> Inr ([(key, Obj (config r))], errors r, secrets r))
         | Secret inner \<Rightarrow>
             (case recursiveVerify [(''secret'', inner)] env subPath of
                Inl e \<Rightarrow> Inl e
              | Inr r \<Rightarrow> Inr ([(key, Obj (config r))], errors r, secrets r)))"
| "mapConfs env path [] = Inr []"
| "mapConfs env path ((key, n) # rest) =
     (case getMapConfigFunction env path key n of
        Inl e \<Rightarrow> Inl e
      | Inr m \<Rightarrow>
          (case mapConfs env path rest of
             Inl e \<Rightarrow> Inl e
           | Inr ms \<Rightarrow> Inr (m # ms)))"
| "recursiveVerify entries env path =
     (case mapConfs env path entries of
        Inl e \<Rightarrow> Inl e
      | Inr mappedConf \<Rightarrow>
          Inr (foldl reduceConf \<lparr> config = [], errors = [], secrets = [] \<rparr> mappedConf))"
  by pat_completeness auto

termination
  apply (relation "measure (\<lambda>x. case x of
      Inl (env, path, key, n) \<Rightarrow> 3 * size n + 2
    | Inr (Inl (env, path, entries)) \<Rightarrow> 3 * size_list (size_prod (\<lambda>_. 0) size) entries
    | Inr (Inr (entries, env, path)) \<Rightarrow> 3 * size_list (size_prod (\<lambda>_. 0) size) entries + 1)")
      apply simp
  subgoal for env path key maybeSecret
    by (cases maybeSecret) (auto simp: unwrapMaybeSecret_def)
  subgoal for env path key maybeSecret
    by (cases maybeSecret) (auto simp: unwrapMaybeSecret_def)
    apply simp_all
  done

declare getMapConfigFunction.simps [simp del]
declare recursiveVerify.simps [simp del]

section \<open>Public entry points\<close>

definition insert_value :: "jsval \<Rightarrow> node" where
  "insert_value v = Insert v"

definition secret :: "node \<Rightarrow> node" where
  "secret v = Secret v"

text \<open>
  \<open>builtConfig\<close> is a plain object, so \<open>builtConfig.__proto__\<close> is \<open>Object.prototype\<close>,
  the one object every plain object of the process inherits from. The only state outside
  a call's own values that the code writes is its \<open>toString\<close> slot: either the built-in
  function, or the closure \<open>toStringCurried(secrets, builtConfig)\<close>. (A schema with an own
  key \<open>__proto__\<close> at its top, from a computed key or from \<open>JSON.parse\<close>, gives \<open>builtConfig\<close>
  an own property of that name, and the assignment then goes to that property's value or
  raises a \<open>TypeError\<close>. That case is not modelled in \<open>verify\<close> below; what is proved of
  the outcome of \<open>verify\<close> and \<open>strictVerify\<close> is stated for schemas without that key.)
\<close>

datatype toString_impl =
    NativeToString
  | ToStringCurried "string list" "(string \<times> jsval) list"

record world =
  proto_toString :: toString_impl

text \<open>
  \<open>verify(config, env)\<close>, with the environment passed explicitly; the result is the pair
  \<open>{config, errors}\<close> or what was raised, and the world after the call.
\<close>

definition verify ::
  "schema \<Rightarrow> env \<Rightarrow> world \<Rightarrow> (error + (string \<times> jsval) list \<times> string list) \<times> world" where
  "verify schema env w =
     (case recursiveVerify schema env [] of
        Inl e \<Rightarrow> (Inl e, w)
      | Inr r \<Rightarrow>
          (Inr (config r, map message (errors r)),
           if length (secrets r) \<noteq> 0
           then w\<lparr> proto_toString := ToStringCurried (secrets r) (config r) \<rparr>
           else w))"

text \<open>\<open>errors.join(sep)\<close>\<close>

fun join :: "string \<Rightarrow> string list \<Rightarrow> string" where
  "join sep [] = []"
| "join sep [x] = x"
| "join sep (x # y # ys) = x @ sep @ join sep (y # ys)"


section \<open>Redactor\<close>

text \<open>
  Strings are lists of 8-bit characters; one character stands for one UTF-16 code unit.
  The line terminators that \<open>.\<close> of a regular expression does not match are then line
  feed and carriage return (U+2028 and U+2029 lie outside this character type).
\<close>

definition is_line_terminator :: "char \<Rightarrow> bool" where
  "is_line_terminator c = (c = CHR 0x0A \<or> c = CHR 0x0D)"

text \<open>\<open>secret.split('.')\<close>\<close>

fun split_dot :: "string \<Rightarrow> string list" where
  "split_dot [] = [[]]"
| "split_dot (c # cs) =
     (if c = CHR ''.'' then [] # split_dot cs
      else (case split_dot cs of [] \<Rightarrow> [[c]] | x # xs \<Rightarrow> (c # x) # xs))"

text \<open>
  The secret paths are an array whose elements are strings, or \<open>undefined\<close> (\<open>None\<close>): that
  is what the recursion passes down when a path has no children part. \<open>secret.split\<close> on
  \<open>undefined\<close> raises a \<open>TypeError\<close>, at the first callback of the first \<open>filter\<close>.
\<close>

definition seperateSecretsByNestLevel ::
  "string option list \<Rightarrow> error + string list \<times> string list" where
  "seperateSecretsByNestLevel secretPaths =
     (case those secretPaths of
        None \<Rightarrow> Inl TypeError
      | Some ss \<Rightarrow>
          (let nestedSecrets = filter (\<lambda>secret. length (split_dot secret) > 1) ss;
               nonNested = filter (\<lambda>secret. secret \<notin> set nestedSecrets) ss
           in Inr (nonNested, nestedSecrets)))"

text \<open>
  \<open>path.split(/\.(.+)/)\<close>: the pieces between the matches, each match followed by its
  capture. A match starts at a dot that is followed by a character other than a line
  terminator, and its capture runs up to the next line terminator or the end.
\<close>

lemma length_dropWhile_less_Suc [termination_simp]:
  "length (dropWhile P xs) < Suc (length xs)"
  by (simp add: length_dropWhile_le le_imp_less_Suc)

fun regex_split :: "string \<Rightarrow> string \<Rightarrow> string list" where
  "regex_split chunk [] = [rev chunk]"
| "regex_split chunk (c # cs) =
     (if c = CHR ''.'' \<and> cs \<noteq> [] \<and> \<not> is_line_terminator (hd cs)
      then rev chunk # takeWhile (\<lambda>x. \<not> is_line_terminator x) cs
             # regex_split [] (dropWhile (\<lambda>x. \<not> is_line_terminator x) cs)
      else regex_split (c # chunk) cs)"

definition seperateParentFromChildren :: "string \<Rightarrow> string list" where
  "seperateParentFromChildren path = regex_split [] path"

text \<open>
  The callback's parameter \<open>[parent, children]\<close> takes the first two elements of the array;
  an element that is not there is \<open>undefined\<close> (as a property key, \<open>"undefined"\<close>).
\<close>

definition parent_of :: "string list \<Rightarrow> string" where
  "parent_of parts = (case parts of [] \<Rightarrow> ''undefined'' | p # _ \<Rightarrow> p)"

definition child_of :: "string list \<Rightarrow> string option" where
  "child_of parts = (case parts of _ # c # _ \<Rightarrow> Some c | _ \<Rightarrow> None)"

text \<open>
  One step of the \<open>reduce\<close> that groups the children by parent. The accumulator is a plain
  object, so \<open>acc[parent]\<close> reads through its prototype chain: for a parent it does not
  have but \<open>Object.prototype\<close> has, it finds a function or the prototype itself, which
  counts as true and has no \<open>concat\<close>, and calling that raises a \<open>TypeError\<close>.
\<close>

definition group_step ::
  "(string \<times> string option list) list \<Rightarrow> string list \<Rightarrow>
   error + (string \<times> string option list) list" where
  "group_step acc parts =
     (let parent = parent_of parts;
          children = child_of parts
      in case map_of acc parent of
           Some cs \<Rightarrow> Inr (AList.update parent (cs @ [children]) acc)
         | None \<Rightarrow>
             if inherited parent = Undefined
             then Inr (AList.update parent [children] acc)
             else Inl TypeError)"

fun reduce_groups ::
  "(string \<times> string option list) list \<Rightarrow> string list list \<Rightarrow>
   error + (string \<times> string option list) list" where
  "reduce_groups acc [] = Inr acc"
| "reduce_groups acc (parts # rest) =
     (case group_step acc parts of
        Inl e \<Rightarrow> Inl e
      | Inr acc' \<Rightarrow> reduce_groups acc' rest)"

text \<open>
  \<open>Object.keys(config)\<close>, \<open>{...config}\<close> and \<open>config[parent]\<close> on a value that need not
  be an object. A string has its characters as own properties, under the decimal indices,
  and \<open>length\<close>; a number and a boolean have none; \<open>Object.keys\<close> of and a property read
  from \<open>undefined\<close> or \<open>null\<close> raise a \<open>TypeError\<close>. A plain object inherits from
  \<open>Object.prototype\<close>; a built-in value has no enumerable property of its own. What a
  string, a number, a boolean or a built-in value has from its own prototype (\<open>charAt\<close>,
  \<open>toFixed\<close>, \<open>call\<close> and the like) or as a property that is not enumerable is not
  modelled: it reads as \<open>undefined\<close>.
\<close>

definition digit_char :: "nat \<Rightarrow> char" where
  "digit_char d = ''0123456789'' ! d"

fun decimal :: "nat \<Rightarrow> string" where
  "decimal n = (if n < 10 then [digit_char n] else decimal (n div 10) @ [digit_char (n mod 10)])"

declare decimal.simps [simp del]

fun own_props :: "jsval \<Rightarrow> (string \<times> jsval) list" where
  "own_props (Obj props) = props"
| "own_props (Str s) = map (\<lambda>i. (decimal i, Str [s ! i])) [0..<length s]"
| "own_props _ = []"

fun own_keys :: "jsval \<Rightarrow> error + string list" where
  "own_keys Undefined = Inl TypeError"
| "own_keys Null = Inl TypeError"
| "own_keys v = Inr (map fst (own_props v))"

fun get_prop :: "jsval \<Rightarrow> string \<Rightarrow> error + jsval" where
  "get_prop Undefined k = Inl TypeError"
| "get_prop Null k = Inl TypeError"
| "get_prop (Obj props) k = Inr (case map_of props k of Some v \<Rightarrow> v | None \<Rightarrow> inherited k)"
| "get_prop (Str s) k =
     Inr (case map_of (own_props (Str s)) k of
            Some v \<Rightarrow> v
          | None \<Rightarrow> if k = ''length'' then Num (int (length s)) else Undefined)"
| "get_prop v k = Inr Undefined"

text \<open>
  The \<open>reduce\<close> that builds \<open>nestedSanatizedSecrets\<close>, given for each parent the outcome of
  its recursive call: the first call that raised ends it.
\<close>

fun collect :: "(string \<times> jsval) list \<Rightarrow> (string \<times> (error + jsval)) list \<Rightarrow> error + (string \<times> jsval) list" where
  "collect acc [] = Inr acc"
| "collect acc ((parent, r) # rest) =
     (case r of Inl e \<Rightarrow> Inl e | Inr v \<Rightarrow> collect (AList.update parent v acc) rest)"

definition groupedNestedSecrets ::
  "string list \<Rightarrow> error + (string \<times> string option list) list" where
  "groupedNestedSecrets deepSecrets =
     reduce_groups [] (map seperateParentFromChildren deepSecrets)"

text \<open>
  \<open>recursiveToString(secrets, config)\<close>. The recursive calls are made in the order of
  \<open>Object.keys(groupedNestedSecrets)\<close>; \<open>sanatizedSecrets\<close> cannot raise, so it is computed
  after them here.
\<close>

function recursiveToString :: "string option list \<Rightarrow> jsval \<Rightarrow> error + jsval" where
  "recursiveToString secretPaths cfg =
     (case seperateSecretsByNestLevel secretPaths of
        Inl e \<Rightarrow> Inl e
      | Inr (secretsAtThisLevel, deepSecrets) \<Rightarrow>
          (case own_keys cfg of
             Inl e \<Rightarrow> Inl e
           | Inr keys \<Rightarrow>
               (case groupedNestedSecrets deepSecrets of
                  Inl e \<Rightarrow> Inl e
                | Inr grouped \<Rightarrow>
                    (let secretKeys = filter (\<lambda>configKey. configKey \<in> set secretsAtThisLevel) keys;
                         results = map (\<lambda>(parent, children).
                                     (parent,
                                      case get_prop cfg parent of
                                        Inl e \<Rightarrow> Inl e
                                      | Inr sub \<Rightarrow> recursiveToString children sub)) grouped
                     in case collect [] results of
                          Inl e \<Rightarrow> Inl e
                        | Inr nestedSanatizedSecrets \<Rightarrow>
                            (let sanatizedSecrets =
                                   foldl (\<lambda>acc key. AList.update key (Str ''[secret]'') acc) []
                                     secretKeys
                             in Inr (Obj (spread (spread (own_props cfg) sanatizedSecrets)
                                            nestedSanatizedSecrets)))))))"
  by pat_completeness auto

text \<open>Termination: every child path is shorter than the path it was split from.\<close>

fun path_weight :: "string option \<Rightarrow> nat" where
  "path_weight None = 1"
| "path_weight (Some s) = length s + 2"

definition paths_weight :: "string option list \<Rightarrow> nat" where
  "paths_weight ps = Max (insert 0 (path_weight ` set ps))"

lemma those_Some_map: "those xs = Some ys \<Longrightarrow> xs = map Some ys"
  by (induction xs arbitrary: ys) (auto split: option.splits)

lemma those_map_Some [simp]: "those (map Some ys) = Some ys"
  by (induction ys) auto

lemma regex_split_child_shorter:
  "regex_split chunk s = p # c # rest \<Longrightarrow> length c < length s"
proof (induction chunk s rule: regex_split.induct)
  case (1 chunk)
  then show ?case by simp
next
  case (2 chunk c0 cs)
  show ?case
  proof (cases "c0 = CHR ''.'' \<and> cs \<noteq> [] \<and> \<not> is_line_terminator (hd cs)")
    case True
    then have "c = takeWhile (\<lambda>x. \<not> is_line_terminator x) cs"
      using 2(3) by simp
    then show ?thesis
      using length_takeWhile_le [of "\<lambda>x. \<not> is_line_terminator x" cs] by simp
  next
    case False
    then have "regex_split (c0 # chunk) cs = p # c # rest"
      using 2(3) by auto
    then show ?thesis
      using 2(2) False by auto
  qed
qed

lemma child_weight:
  assumes "s \<noteq> []"
  shows "path_weight (child_of (seperateParentFromChildren s)) < path_weight (Some s)"
proof (cases "child_of (seperateParentFromChildren s)")
  case None
  then show ?thesis by simp
next
  case (Some c)
  then obtain p rest where "regex_split [] s = p # c # rest"
    by (auto simp: child_of_def seperateParentFromChildren_def split: list.splits)
  then have "length c < length s"
    by (rule regex_split_child_shorter)
  then show ?thesis
    using Some by simp
qed

lemma set_update_subset: "set (AList.update k v al) \<subseteq> insert (k, v) (set al)"
  by (induction al) auto

text \<open>
  For the proofs: the step as a total function, which is what \<open>group_step\<close> returns when
  it returns, and the groups that the \<open>reduce\<close> then builds.
\<close>

definition add_child ::
  "(string \<times> string option list) list \<Rightarrow> string list \<Rightarrow> (string \<times> string option list) list" where
  "add_child acc parts =
     AList.update (parent_of parts)
       (case map_of acc (parent_of parts) of
          Some cs \<Rightarrow> cs @ [child_of parts]
        | None \<Rightarrow> [child_of parts]) acc"

definition groups :: "string list \<Rightarrow> (string \<times> string option list) list" where
  "groups deepSecrets = foldl add_child [] (map seperateParentFromChildren deepSecrets)"

lemma group_step_Inr: "group_step acc parts = Inr acc' \<Longrightarrow> acc' = add_child acc parts"
  by (auto simp: group_step_def add_child_def Let_def split: option.splits if_splits)

lemma reduce_groups_Inr: "reduce_groups acc partss = Inr G \<Longrightarrow> G = foldl add_child acc partss"
  by (induction partss arbitrary: acc) (auto split: sum.splits dest: group_step_Inr)

lemma grouped_Inr: "groupedNestedSecrets deep = Inr G \<Longrightarrow> G = groups deep"
  by (simp add: groupedNestedSecrets_def groups_def reduce_groups_Inr)

lemma reduce_groups_plain:
  "\<forall>parts \<in> set partss. inherited (parent_of parts) = Undefined \<Longrightarrow>
   reduce_groups acc partss = Inr (foldl add_child acc partss)"
  by (induction partss arbitrary: acc)
     (auto simp: group_step_def add_child_def Let_def split: option.splits)

lemma add_child_children:
  assumes "(parent, children) \<in> set (add_child acc parts)" and "ch \<in> set children"
  shows "(\<exists>cs. (parent, cs) \<in> set acc \<and> ch \<in> set cs) \<or> ch = child_of parts"
proof -
  let ?p = "parent_of parts"
  let ?v = "case map_of acc ?p of Some cs \<Rightarrow> cs @ [child_of parts] | None \<Rightarrow> [child_of parts]"
  have "add_child acc parts = AList.update ?p ?v acc"
    by (simp add: add_child_def)
  then have "(parent, children) \<in> insert (?p, ?v) (set acc)"
    using assms(1) set_update_subset [of ?p ?v acc] by auto
  then show ?thesis
    using assms(2) by (auto split: option.splits dest: map_of_SomeD)
qed

lemma grouped_children:
  "(parent, children) \<in> set (foldl add_child acc partss) \<Longrightarrow> ch \<in> set children \<Longrightarrow>
   (\<exists>cs. (parent, cs) \<in> set acc \<and> ch \<in> set cs) \<or> (\<exists>parts \<in> set partss. ch = child_of parts)"
proof (induction partss arbitrary: acc)
  case Nil
  then show ?case by auto
next
  case (Cons parts partss)
  from Cons.IH [of "add_child acc parts"] Cons.prems
  consider cs where "(parent, cs) \<in> set (add_child acc parts)" "ch \<in> set cs"
    | "\<exists>parts \<in> set partss. ch = child_of parts"
    by auto
  then show ?case
  proof cases
    case 1
    then show ?thesis using add_child_children by fastforce
  next
    case 2
    then show ?thesis by auto
  qed
qed

lemma recursiveToString_decreases:
  assumes "seperateSecretsByNestLevel secretPaths = Inr (thisLevel, deep)"
    and "groupedNestedSecrets deep = Inr grouped"
    and "(parent, children) \<in> set grouped"
  shows "paths_weight children < paths_weight secretPaths"
proof -
  have in_groups: "(parent, children) \<in> set (groups deep)"
    using assms(2,3) grouped_Inr by blast
  obtain ss where ss: "those secretPaths = Some ss"
    and deep: "deep = filter (\<lambda>secret. length (split_dot secret) > 1) ss"
    using assms(1) by (auto simp: seperateSecretsByNestLevel_def Let_def split: option.splits)
  have sp: "secretPaths = map Some ss"
    using ss by (rule those_Some_map)
  have nonempty: "s \<noteq> []" if "s \<in> set deep" for s
    using that deep by auto
  have deep_nonempty: "deep \<noteq> []"
    using in_groups by (auto simp: groups_def)
  have le: "path_weight (Some s) \<le> paths_weight secretPaths" if "s \<in> set deep" for s
  proof -
    have "Some s \<in> set secretPaths"
      using that deep sp by auto
    then have "path_weight (Some s) \<in> insert 0 (path_weight ` set secretPaths)"
      by blast
    then show ?thesis
      unfolding paths_weight_def by (intro Max_ge) auto
  qed
  have "a < paths_weight secretPaths" if a: "a \<in> insert 0 (path_weight ` set children)" for a
  proof (cases "a = 0")
    case True
    obtain s where "s \<in> set deep" using deep_nonempty by (cases deep) auto
    then show ?thesis using le [of s] True by simp
  next
    case False
    then obtain ch where ch: "ch \<in> set children" "a = path_weight ch"
      using a by auto
    from grouped_children [OF in_groups [unfolded groups_def] ch(1)]
    obtain s where s: "s \<in> set deep" "ch = child_of (seperateParentFromChildren s)"
      by auto
    then show ?thesis
      using child_weight [of s] nonempty [of s] le [of s] ch(2) by auto
  qed
  then show ?thesis
    unfolding paths_weight_def [of children] by (subst Max_less_iff) auto
qed

termination recursiveToString
  by (relation "measure (\<lambda>(secretPaths, cfg). paths_weight secretPaths)")
     (auto dest: recursiveToString_decreases)

declare recursiveToString.simps [simp del]

text \<open>
  Two parts of the body of \<open>recursiveToString\<close> by name: the outcomes of the recursive
  calls, one for each parent, and \<open>sanatizedSecrets\<close>.
\<close>

definition nested_results ::
  "jsval \<Rightarrow> (string \<times> string option list) list \<Rightarrow> (string \<times> (error + jsval)) list" where
  "nested_results cfg grouped =
     map (\<lambda>(parent, children).
            (parent,
             case get_prop cfg parent of
               Inl e \<Rightarrow> Inl e
             | Inr sub \<Rightarrow> recursiveToString children sub)) grouped"

definition markers :: "string list \<Rightarrow> (string \<times> jsval) list" where
  "markers secretKeys = foldl (\<lambda>acc key. AList.update key (Str ''[secret]'') acc) [] secretKeys"

text \<open>
  \<open>JSON.parse(JSON.stringify(config))\<close> on these values: a property whose value is
  \<open>undefined\<close> or a function is left out, \<open>Object.prototype\<close>, which has no enumerable
  property, becomes an empty object, everything else is copied. (\<open>JSON.stringify\<close> of
  \<open>undefined\<close> or of a function is \<open>undefined\<close>, which \<open>JSON.parse\<close> rejects.) An object
  whose property \<open>toJSON\<close> holds a function would be serialized by calling that function.
  This is not modelled: what is proved of the copy is stated for values without such a
  property (\<open>no_toJSON\<close>).
\<close>

fun no_toJSON :: "jsval \<Rightarrow> bool" where
  "no_toJSON (Obj props) =
     ((case map_of props ''toJSON'' of Some (Fun f) \<Rightarrow> False | _ \<Rightarrow> True) \<and>
      (\<forall>v \<in> set (map snd props). no_toJSON v))"
| "no_toJSON v = True"

fun no_json :: "jsval \<Rightarrow> bool" where
  "no_json Undefined = True"
| "no_json (Fun f) = True"
| "no_json _ = False"

fun json_clone :: "jsval \<Rightarrow> jsval" where
  "json_clone (Obj props) =
     Obj (map (\<lambda>(k, v). (k, json_clone v)) (filter (\<lambda>(k, v). \<not> no_json v) props))"
| "json_clone ObjectPrototype = Obj []"
| "json_clone v = v"

definition json_roundtrip :: "jsval \<Rightarrow> error + jsval" where
  "json_roundtrip v = (if no_json v then Inl SyntaxError else Inr (json_clone v))"

text \<open>
  \<open>toStringCurried(secrets, config)()\<close>; the pretty-printer \<open>JSON.stringify(_, null, 2)\<close> of
  the platform is a parameter.
\<close>

definition toStringCurried ::
  "(jsval \<Rightarrow> string) \<Rightarrow> string list \<Rightarrow> (string \<times> jsval) list \<Rightarrow> error + string" where
  "toStringCurried stringify secretPaths cfg =
     (case json_roundtrip (Obj cfg) of
        Inl e \<Rightarrow> Inl e
      | Inr copy \<Rightarrow>
          (case recursiveToString (map Some secretPaths) copy of
             Inl e \<Rightarrow> Inl e
           | Inr sanatizedConfig \<Rightarrow> Inr (stringify sanatizedConfig)))"

text \<open>What \<open>toString()\<close> of a plain object gives in a world: the closure ignores \<open>this\<close>.\<close>

definition plain_toString :: "(jsval \<Rightarrow> string) \<Rightarrow> world \<Rightarrow> error + string" where
  "plain_toString stringify w =
     (case proto_toString w of
        NativeToString \<Rightarrow> Inr ''[object Object]''
      | ToStringCurried secretPaths cfg \<Rightarrow> toStringCurried stringify secretPaths cfg)"

section \<open>The redactor on a store of objects\<close>

text \<open>
  Whether the redactor copies or shares, and whether it writes to its input, is a matter
  of which object is which. For that the objects are put on a store: a list of objects,
  each the list of its properties. The address of an object is its position, and a new
  object goes to the end. A value is a reference to an object of the store, or an
  immediate value: one of the values above that is not held in the store (a primitive or
  a built-in; an object given immediately is one that nothing else refers to).
\<close>

datatype sval = Imm jsval | Ref nat

type_synonym store = "(string \<times> sval) list list"

text \<open>
  \<open>{...config}\<close>, \<open>Object.keys(config)\<close> and \<open>config[parent]\<close> on the store. (An address
  outside the store has no properties; none occurs in what is proved.)
\<close>

fun own_props_s :: "store \<Rightarrow> sval \<Rightarrow> (string \<times> sval) list" where
  "own_props_s h (Ref a) = (if a < length h then h ! a else [])"
| "own_props_s h (Imm v) = map (\<lambda>(k, x). (k, Imm x)) (own_props v)"

fun own_keys_s :: "store \<Rightarrow> sval \<Rightarrow> error + string list" where
  "own_keys_s h (Ref a) = Inr (map fst (own_props_s h (Ref a)))"
| "own_keys_s h (Imm v) = own_keys v"

fun get_prop_s :: "store \<Rightarrow> sval \<Rightarrow> string \<Rightarrow> error + sval" where
  "get_prop_s h (Ref a) k =
     Inr (case map_of (own_props_s h (Ref a)) k of Some v \<Rightarrow> v | None \<Rightarrow> Imm (inherited k))"
| "get_prop_s h (Imm v) k = (case get_prop v k of Inl e \<Rightarrow> Inl e | Inr x \<Rightarrow> Inr (Imm x))"

text \<open>
  \<open>recursiveToString(secrets, config)\<close> on the store. The objects that a call builds and
  drops again (the accumulators of its \<open>reduce\<close>s) are kept as lists; the object that it
  returns is put on the store. The function has no assignment to a property of an object.
  (Which address a new object gets depends on the order of the recursive calls; nothing
  that is proved does.)
\<close>

function recursiveToString_s ::
  "string option list \<Rightarrow> sval \<Rightarrow> store \<Rightarrow> error + sval \<times> store" where
  "recursiveToString_s secretPaths cfg h =
     (case seperateSecretsByNestLevel secretPaths of
        Inl e \<Rightarrow> Inl e
      | Inr (secretsAtThisLevel, deepSecrets) \<Rightarrow>
          (case own_keys_s h cfg of
             Inl e \<Rightarrow> Inl e
           | Inr keys \<Rightarrow>
               (case groupedNestedSecrets deepSecrets of
                  Inl e \<Rightarrow> Inl e
                | Inr grouped \<Rightarrow>
                    (case foldl (\<lambda>acc (parent, children).
                                   case acc of
                                     Inl e \<Rightarrow> Inl e
                                   | Inr (nested, h') \<Rightarrow>
                                       (case get_prop_s h' cfg parent of
                                          Inl e \<Rightarrow> Inl e
                                        | Inr sub \<Rightarrow>
                                            (case recursiveToString_s children sub h' of
                                               Inl e \<Rightarrow> Inl e
                                             | Inr (r, h'') \<Rightarrow>
                                                 Inr (AList.update parent r nested, h''))))
                           (Inr ([], h)) grouped of
                       Inl e \<Rightarrow> Inl e
                     | Inr (nestedSanatizedSecrets, h1) \<Rightarrow>
                         (let secretKeys =
                                filter (\<lambda>configKey. configKey \<in> set secretsAtThisLevel) keys;
                              sanatizedSecrets =
                                foldl (\<lambda>acc key. AList.update key (Imm (Str ''[secret]'')) acc) []
                                  secretKeys
                          in Inr (Ref (length h1),
                                  h1 @ [spread (spread (own_props_s h1 cfg) sanatizedSecrets)
                                          nestedSanatizedSecrets]))))))"
  by pat_completeness auto

termination
  by (relation "measure (\<lambda>(secretPaths, cfg, h). paths_weight secretPaths)")
     (auto dest: recursiveToString_decreases)

declare recursiveToString_s.simps [simp del]

text \<open>The step of the \<open>reduce\<close> over the parents, and \<open>sanatizedSecrets\<close>, by name.\<close>

definition nest_s ::
  "sval \<Rightarrow> error + (string \<times> sval) list \<times> store \<Rightarrow> string \<times> string option list \<Rightarrow>
   error + (string \<times> sval) list \<times> store" where
  "nest_s cfg acc pc =
     (case acc of
        Inl e \<Rightarrow> Inl e
      | Inr (nested, h') \<Rightarrow>
          (case get_prop_s h' cfg (fst pc) of
             Inl e \<Rightarrow> Inl e
           | Inr sub \<Rightarrow>
               (case recursiveToString_s (snd pc) sub h' of
                  Inl e \<Rightarrow> Inl e
                | Inr (r, h'') \<Rightarrow> Inr (AList.update (fst pc) r nested, h''))))"

definition markers_s :: "string list \<Rightarrow> (string \<times> sval) list" where
  "markers_s secretKeys =
     foldl (\<lambda>acc key. AList.update key (Imm (Str ''[secret]'')) acc) [] secretKeys"

text \<open>
  \<open>JSON.parse(JSON.stringify(config))\<close>. \<open>JSON.stringify\<close> reads the tree below a value,
  and raises a \<open>TypeError\<close> on a structure that comes back to itself: the tree is read to
  a depth of as many objects as the store has, which a chain without a cycle cannot
  exceed. \<open>JSON.parse\<close> builds every object of the text anew.
\<close>

fun read_s :: "nat \<Rightarrow> store \<Rightarrow> sval \<Rightarrow> jsval option" where
  "read_s n h (Imm v) = Some v"
| "read_s 0 h (Ref a) = None"
| "read_s (Suc n) h (Ref a) =
     (if a < length h
      then map_option Obj (those (map (\<lambda>(k, v). map_option (Pair k) (read_s n h v)) (h ! a)))
      else None)"

fun alloc :: "jsval \<Rightarrow> store \<Rightarrow> sval \<times> store"
  and alloc_props :: "(string \<times> jsval) list \<Rightarrow> store \<Rightarrow> (string \<times> sval) list \<times> store" where
  "alloc (Obj props) h = (case alloc_props props h of (ps, h') \<Rightarrow> (Ref (length h'), h' @ [ps]))"
| "alloc v h = (Imm v, h)"
| "alloc_props [] h = ([], h)"
| "alloc_props ((k, v) # rest) h =
     (case alloc v h of (x, h') \<Rightarrow>
        (case alloc_props rest h' of (ps, h'') \<Rightarrow> ((k, x) # ps, h'')))"

text \<open>What \<open>toStringCurried(secrets, config)()\<close> renders: its \<open>sanatizedConfig\<close>.\<close>

definition sanatizedConfig_s :: "string list \<Rightarrow> sval \<Rightarrow> store \<Rightarrow> error + sval \<times> store" where
  "sanatizedConfig_s secretPaths cfg h =
     (case read_s (length h) h cfg of
        None \<Rightarrow> Inl TypeError
      | Some tree \<Rightarrow>
          (case json_roundtrip tree of
             Inl e \<Rightarrow> Inl e
           | Inr copy \<Rightarrow>
               (case alloc copy h of
                  (c, h') \<Rightarrow> recursiveToString_s (map Some secretPaths) c h')))"

section \<open>Notions the claims are stated with\<close>

text \<open>
  A schema denotes JavaScript objects when no object in it has a key twice.
\<close>

fun wf_node :: "node \<Rightarrow> bool" and wf_entries :: "schema \<Rightarrow> bool" where
  "wf_node (Nested entries) = wf_entries entries"
| "wf_node (Secret n) = wf_node n"
| "wf_node _ = True"
| "wf_entries [] = True"
| "wf_entries ((k, n) # rest) = (k \<notin> set (map fst rest) \<and> wf_node n \<and> wf_entries rest)"

text \<open>
  The resolved value has the key set of the schema at every depth: the same keys in the
  same order at this level, and so again below every key that holds an object (a nested
  schema, wrapped in \<open>secret\<close> or not; a \<open>SecretValue\<close> inside a \<open>SecretValue\<close> is walked as
  the object with the one key \<open>secret\<close>).
\<close>

fun value_keys :: "node \<Rightarrow> jsval \<Rightarrow> bool" and same_keys :: "schema \<Rightarrow> (string \<times> jsval) list \<Rightarrow> bool" where
  "value_keys (Nested entries) v = (case v of Obj props \<Rightarrow> same_keys entries props | _ \<Rightarrow> False)"
| "value_keys (Secret (Nested entries)) v =
     (case v of Obj props \<Rightarrow> same_keys entries props | _ \<Rightarrow> False)"
| "value_keys (Secret (Secret inner)) v =
     (case v of Obj [(k, v')] \<Rightarrow> k = ''secret'' \<and> value_keys inner v' | _ \<Rightarrow> False)"
| "value_keys _ v = True"
| "same_keys [] props = (props = [])"
| "same_keys ((k, n) # rest) props =
     (case props of
        [] \<Rightarrow> False
      | (k', v) # props' \<Rightarrow> k' = k \<and> value_keys n v \<and> same_keys rest props')"

text \<open>
  The leaves of a schema with their dotted paths, in depth-first order, keys in schema
  order; the name a leaf looks up, and whether that name is none of those that a plain
  object inherits; what one leaf contributes to the errors and to the secret paths; and
  whether the transform of a leaf, if it is called, returns.
\<close>

fun node_leaves :: "string \<Rightarrow> node \<Rightarrow> (string \<times> node) list"
  and leaves :: "string \<Rightarrow> schema \<Rightarrow> (string \<times> node) list" where
  "node_leaves p (Nested entries) = leaves p entries"
| "node_leaves p (Secret (Nested entries)) = leaves p entries"
| "node_leaves p (Secret (Secret inner)) = node_leaves (subPathOf p ''secret'') inner"
| "node_leaves p n = [(p, n)]"
| "leaves path [] = []"
| "leaves path ((k, n) # rest) = node_leaves (subPathOf path k) n @ leaves path rest"

fun lookup_key :: "node \<Rightarrow> string option" where
  "lookup_key (EnvKey name) = Some name"
| "lookup_key (Transform name f) = Some name"
| "lookup_key (Secret (EnvKey name)) = Some name"
| "lookup_key (Secret (Transform name f)) = Some name"
| "lookup_key _ = None"

definition plain_lookup :: "string \<times> node \<Rightarrow> bool" where
  "plain_lookup leaf =
     (case lookup_key (snd leaf) of None \<Rightarrow> True | Some name \<Rightarrow> name \<notin> set inherited_names)"

definition leaf_errors :: "env \<Rightarrow> string \<times> node \<Rightarrow> error list" where
  "leaf_errors env leaf =
     (case lookup_key (snd leaf) of
        None \<Rightarrow> []
      | Some name \<Rightarrow>
          if env name = None \<or> env name = Some []
          then [Error (missing_message name (fst leaf))] else [])"

definition leaf_secrets :: "string \<times> node \<Rightarrow> string list" where
  "leaf_secrets leaf = (case snd leaf of Secret _ \<Rightarrow> [fst leaf] | _ \<Rightarrow> [])"

fun transform_of :: "node \<Rightarrow> (string \<times> transformFn) option" where
  "transform_of (Transform name f) = Some (name, f)"
| "transform_of (Secret (Transform name f)) = Some (name, f)"
| "transform_of _ = None"

definition leaf_returns :: "env \<Rightarrow> string \<times> node \<Rightarrow> bool" where
  "leaf_returns env leaf =
     (case transform_of (snd leaf) of
        None \<Rightarrow> True
      | Some (name, f) \<Rightarrow>
          (case env name of
             None \<Rightarrow> True
           | Some v \<Rightarrow> v = [] \<or> (case f (Str v) of Inl _ \<Rightarrow> False | Inr _ \<Rightarrow> True)))"






text \<open>What \<open>getMapConfigFunction\<close> returns for a key holds one property.\<close>

definition fragment :: "mapped \<Rightarrow> bool" where
  "fragment m = (\<exists>k v. fst m = [(k, v)])"

text \<open>A value denotes JavaScript objects when no object in it has a key twice.\<close>

fun wf_val :: "jsval \<Rightarrow> bool" where
  "wf_val (Obj props) = (distinct (map fst props) \<and> (\<forall>v \<in> set (map snd props). wf_val v))"
| "wf_val _ = True"

text \<open>
  Secret paths as chains of keys. A key is good when it is not empty and has no dot and no
  line terminator, so that the dotted path of a chain splits back into its keys.
\<close>

definition good_key :: "string \<Rightarrow> bool" where
  "good_key k = (k \<noteq> [] \<and> (\<forall>c \<in> set k. c \<noteq> CHR ''.'' \<and> \<not> is_line_terminator c))"

definition good_path :: "string list \<Rightarrow> bool" where
  "good_path ks = (ks \<noteq> [] \<and> (\<forall>k \<in> set ks. good_key k))"

fun proper_prefix :: "string list \<Rightarrow> string list \<Rightarrow> bool" where
  "proper_prefix [] ys = (ys \<noteq> [])"
| "proper_prefix (x # xs) [] = False"
| "proper_prefix (x # xs) (y # ys) = (x = y \<and> proper_prefix xs ys)"

text \<open>The listed chains that pass through key \<open>k\<close>, relative to \<open>k\<close>.\<close>

fun below :: "string \<Rightarrow> string list list \<Rightarrow> string list list" where
  "below k [] = []"
| "below k ((k' # k'' # ks) # rest) =
     (if k' = k then (k'' # ks) # below k rest else below k rest)"
| "below k (_ # rest) = below k rest"

text \<open>Every proper ancestor of the path names an object of the config.\<close>

fun ancestors_objects :: "string list \<Rightarrow> jsval \<Rightarrow> bool" where
  "ancestors_objects [] c = True"
| "ancestors_objects [k] c = (case c of Obj _ \<Rightarrow> True | _ \<Rightarrow> False)"
| "ancestors_objects (k # ks) c =
     (case c of
        Obj props \<Rightarrow>
          (case map_of props k of Some v \<Rightarrow> ancestors_objects ks v | None \<Rightarrow> False)
      | _ \<Rightarrow> False)"

text \<open>
  The redaction the specification describes: the value at a listed path is replaced by the
  marker, everything that is neither listed nor below a listed path is unchanged.
\<close>

fun redacted :: "string list list \<Rightarrow> jsval \<Rightarrow> jsval" where
  "redacted listed (Obj props) =
     Obj (map (\<lambda>(k, v). (k, if [k] \<in> set listed then Str ''[secret]''
                            else redacted (below k listed) v)) props)"
| "redacted listed v = v"

text \<open>
  The inputs on which the redactor does that: a config that is an object, listed chains of
  good keys whose proper ancestors are objects of the config, under keys that are not
  names a plain object inherits, and no listed path a proper ancestor of another.
\<close>

definition redactable :: "string list list \<Rightarrow> jsval \<Rightarrow> bool" where
  "redactable listed c =
     (wf_val c \<and> (case c of Obj _ \<Rightarrow> True | _ \<Rightarrow> False) \<and>
      (\<forall>ks \<in> set listed. ks \<noteq> [] \<and> (\<forall>k \<in> set ks. good_key k) \<and>
         (\<forall>k \<in> set (butlast ks). k \<notin> set inherited_names) \<and> ancestors_objects ks c) \<and>
      (\<forall>a \<in> set listed. \<forall>b \<in> set listed. \<not> proper_prefix a b))"

text \<open>
  An address is reachable from a value when it is the address of the value itself or of
  an object that following properties leads to.
\<close>

inductive reach :: "store \<Rightarrow> sval \<Rightarrow> nat \<Rightarrow> bool" for h where
  reach_self: "reach h (Ref a) a"
| reach_prop: "a < length h \<Longrightarrow> (k, v) \<in> set (h ! a) \<Longrightarrow> reach h v b \<Longrightarrow> reach h (Ref a) b"

text \<open>
  A value on the store represents a value of the value model: an immediate value
  represents itself, and a reference represents the object whose properties are
  represented, key by key, by the properties of the object at that address.
\<close>

inductive repr :: "store \<Rightarrow> sval \<Rightarrow> jsval \<Rightarrow> bool" for h where
  repr_Imm: "repr h (Imm v) v"
| repr_Ref: "a < length h \<Longrightarrow>
     list_all2 (\<lambda>p q. fst p = fst q \<and> repr h (snd p) (snd q)) (h ! a) props \<Longrightarrow>
     repr h (Ref a) (Obj props)"

abbreviation props_repr :: "store \<Rightarrow> (string \<times> sval) list \<Rightarrow> (string \<times> jsval) list \<Rightarrow> bool" where
  "props_repr h \<equiv> list_all2 (\<lambda>p q. fst p = fst q \<and> repr h (snd p) (snd q))"

text \<open>
  On a value and its representation the redactor on the store does what the redactor on
  values does: both raise the same error, or both return, and what is returned on the
  store represents what is returned on values.
\<close>

definition refines :: "string option list \<Rightarrow> jsval \<Rightarrow> sval \<Rightarrow> store \<Rightarrow> bool" where
  "refines S j c h =
     (case recursiveToString S j of
        Inl e \<Rightarrow> recursiveToString_s S c h = Inl e
      | Inr j' \<Rightarrow> \<exists>r h'. recursiveToString_s S c h = Inr (r, h') \<and> repr h' r j')"

text \<open>
  For the proofs: a value is above \<open>n\<close> when it is no reference to an address below \<open>n\<close>,
  and a store is closed above \<open>n\<close> when the objects from address \<open>n\<close> on hold only such
  values.
\<close>

fun above :: "nat \<Rightarrow> sval \<Rightarrow> bool" where
  "above n (Ref a) = (n \<le> a)"
| "above n (Imm v) = True"

definition closed_above :: "nat \<Rightarrow> store \<Rightarrow> bool" where
  "closed_above n h = (\<forall>a. n \<le> a \<and> a < length h \<longrightarrow> (\<forall>p \<in> set (h ! a). above n (snd p)))"

text \<open>A store with the config \<open>{ db: { password: 'x', name: 'n' }, token: 't' }\<close> at address 1.\<close>

definition example_store :: store where
  "example_store =
     [[(''password'', Imm (Str ''x'')), (''name'', Imm (Str ''n''))],
      [(''db'', Ref 0), (''token'', Imm (Str ''t''))]]"

section \<open>The resolver on each shape of schema value\<close>

lemma getMap_EnvKey:
  "getMapConfigFunction env path key (EnvKey name) =
     (case getEnvValueOrErrorCurried env (subPathOf path key) name of
        (envValue, errs) \<Rightarrow> Inr ([(key, envValue)], errs, []))"
  by (simp add: getMapConfigFunction.simps unwrapMaybeSecret_def Let_def split: prod.splits)

lemma getMap_Secret_EnvKey:
  "getMapConfigFunction env path key (Secret (EnvKey name)) =
     (case getEnvValueOrErrorCurried env (subPathOf path key) name of
        (envValue, errs) \<Rightarrow> Inr ([(key, envValue)], errs, [subPathOf path key]))"
  by (simp add: getMapConfigFunction.simps unwrapMaybeSecret_def Let_def split: prod.splits)

lemma getMap_Transform:
  "getMapConfigFunction env path key (Transform envKey f) =
     (case getEnvValueOrErrorCurried env (subPathOf path key) envKey of
        (envValue, errs) \<Rightarrow>
          if truthy envValue
          then (case f envValue of Inl e \<Rightarrow> Inl e | Inr t \<Rightarrow> Inr ([(key, t)], errs, []))
          else Inr ([(key, envValue)], errs, []))"
  by (simp add: getMapConfigFunction.simps unwrapMaybeSecret_def Let_def
      split: prod.splits sum.splits)

lemma getMap_Secret_Transform:
  "getMapConfigFunction env path key (Secret (Transform envKey f)) =
     (case getEnvValueOrErrorCurried env (subPathOf path key) envKey of
        (envValue, errs) \<Rightarrow>
          if truthy envValue
          then (case f envValue of
                  Inl e \<Rightarrow> Inl e
                | Inr t \<Rightarrow> Inr ([(key, t)], errs, [subPathOf path key]))
          else Inr ([(key, envValue)], errs, [subPathOf path key]))"
  by (simp add: getMapConfigFunction.simps unwrapMaybeSecret_def Let_def
      split: prod.splits sum.splits)

lemma getMap_Insert:
  "getMapConfigFunction env path key (Insert v) = Inr ([(key, v)], [], [])"
  by (simp add: getMapConfigFunction.simps unwrapMaybeSecret_def Let_def)

lemma getMap_Secret_Insert:
  "getMapConfigFunction env path key (Secret (Insert v)) =
     Inr ([(key, v)], [], [subPathOf path key])"
  by (simp add: getMapConfigFunction.simps unwrapMaybeSecret_def Let_def)

lemma getMap_Nested:
  "getMapConfigFunction env path key (Nested entries) =
     (case recursiveVerify entries env (subPathOf path key) of
        Inl e \<Rightarrow> Inl e
      | Inr r \<Rightarrow> Inr ([(key, Obj (config r))], errors r, secrets r))"
  by (simp add: getMapConfigFunction.simps unwrapMaybeSecret_def Let_def)

lemma getMap_Secret_Nested:
  "getMapConfigFunction env path key (Secret (Nested entries)) =
     (case recursiveVerify entries env (subPathOf path key) of
        Inl e \<Rightarrow> Inl e
      | Inr r \<Rightarrow> Inr ([(key, Obj (config r))], errors r, secrets r))"
  by (simp add: getMapConfigFunction.simps unwrapMaybeSecret_def Let_def)

lemma getMap_Secret_Secret:
  "getMapConfigFunction env path key (Secret (Secret inner)) =
     (case recursiveVerify [(''secret'', inner)] env (subPathOf path key) of
        Inl e \<Rightarrow> Inl e
      | Inr r \<Rightarrow> Inr ([(key, Obj (config r))], errors r, secrets r))"
  by (simp add: getMapConfigFunction.simps unwrapMaybeSecret_def Let_def)

lemmas getMap_shapes =
  getMap_EnvKey getMap_Secret_EnvKey getMap_Transform getMap_Secret_Transform
  getMap_Insert getMap_Secret_Insert getMap_Nested getMap_Secret_Nested getMap_Secret_Secret

lemmas resolver_eval =
  getMap_shapes recursiveVerify.simps reduceConf_def spread_def
  getEnvValueOrErrorCurried_def env_get_def inherited_def object_prototype_functions_def
  subPathOf_def missing_message_def secret_def insert_value_def Let_def

lemma inherited_plain: "name \<notin> set inherited_names \<Longrightarrow> inherited name = Undefined"
  by (simp add: inherited_def inherited_names_def)

lemma lookup_plain:
  "name \<notin> set inherited_names \<Longrightarrow>
   getEnvValueOrErrorCurried env subPath name =
     (case env name of
        None \<Rightarrow> (Undefined, [Error (missing_message name subPath)])
      | Some v \<Rightarrow> if v = [] then (Undefined, [Error (missing_message name subPath)])
                  else (Str v, []))"
  by (simp add: getEnvValueOrErrorCurried_def env_get_def inherited_plain split: option.splits)


section \<open>Environment lookups\<close>




section \<open>Transform leaves\<close>




section \<open>Secret wrappers\<close>

text \<open>
  C10. A key bound to \<open>secret(insert(v))\<close> resolves, for every value \<open>v\<close> and every
  environment, to \<open>v\<close> itself, with no error, and its dotted path (the key, after the
  parent's path and a dot if there is a parent) is recorded as a secret path; the
  environment plays no part. So it is at the top of a schema and inside a nested object.
\<close>

theorem secret_insert:
  "getMapConfigFunction env path key (secret (insert_value v)) =
     Inr ([(key, v)], [], [if path = [] then key else path @ ''.'' @ key]) \<and>
   recursiveVerify [(key, secret (insert_value v))] env path =
     Inr \<lparr> config = [(key, v)], errors = [],
           secrets = [if path = [] then key else path @ ''.'' @ key] \<rparr> \<and>
   recursiveVerify [(''db'', Nested [(''token'', secret (insert_value v))])] env [] =
     Inr \<lparr> config = [(''db'', Obj [(''token'', v)])], errors = [],
           secrets = [''db.token''] \<rparr>"
  by (simp add: resolver_eval)

text \<open>
  The branch for an object returns the secret paths of the recursive call only: the path
  that \<open>unwrapMaybeSecret\<close> recorded for the object itself is not among them, so \<open>secret\<close>
  around a nested object changes nothing.
\<close>

lemma secret_object_same_as_object:
  "getMapConfigFunction env path key (secret (Nested entries)) =
   getMapConfigFunction env path key (Nested entries)"
  by (simp add: secret_def getMap_Nested getMap_Secret_Nested)

text \<open>
  C9 says that a \<open>secret\<close> around a nested object records the object's own path. The code
  records none: for \<open>{ db: secret({ password: 'DB_PASSWORD' }) }\<close> the secret paths are
  empty.
\<close>

theorem secret_object_path_dropped:
  "recursiveVerify [(''db'', secret (Nested [(''password'', EnvKey ''DB_PASSWORD'')]))]
     [''DB_PASSWORD'' \<mapsto> ''hunter2''] [] =
   Inr \<lparr> config = [(''db'', Obj [(''password'', Str ''hunter2'')])],
         errors = [], secrets = [] \<rparr>"
  by (simp add: resolver_eval)

text \<open>
  A key that is the empty string has the empty path when it stands at the top, so the
  paths below it are built as if they had no parent: the secret path recorded for \<open>x\<close>
  inside \<open>{ '': { x: secret('X') } }\<close> is \<open>x\<close>, which is no key at the top of the config.
\<close>

lemma empty_key_path_collides:
  "recursiveVerify [([], Nested [(''x'', secret (EnvKey ''X''))])] [''X'' \<mapsto> ''v''] [] =
   Inr \<lparr> config = [([], Obj [(''x'', Str ''v'')])], errors = [], secrets = [''x''] \<rparr>"
  by (simp add: resolver_eval)

section \<open>The traversal\<close>

lemma update_fresh: "k \<notin> fst ` set al \<Longrightarrow> AList.update k v al = al @ [(k, v)]"
  by (induction al) auto

lemma errors_foldl_reduceConf:
  "errors (foldl reduceConf acc ms) = errors acc @ concat (map (\<lambda>m. fst (snd m)) ms)"
  by (induction ms arbitrary: acc) (auto simp: reduceConf_def split: prod.splits)

lemma secrets_foldl_reduceConf:
  "secrets (foldl reduceConf acc ms) = secrets acc @ concat (map (\<lambda>m. snd (snd m)) ms)"
  by (induction ms arbitrary: acc) (auto simp: reduceConf_def split: prod.splits)

lemma config_foldl_reduceConf:
  "list_all fragment ms \<Longrightarrow>
   distinct (map fst (config acc) @ map fst (concat (map fst ms))) \<Longrightarrow>
   config (foldl reduceConf acc ms) = config acc @ concat (map fst ms)"
proof (induction ms arbitrary: acc)
  case Nil
  then show ?case by simp
next
  case (Cons m ms)
  from Cons.prems(1) obtain k v where m: "fst m = [(k, v)]"
    by (auto simp: fragment_def)
  have fresh: "k \<notin> fst ` set (config acc)"
    using Cons.prems(2) m by auto
  have step: "config (reduceConf acc m) = config acc @ [(k, v)]"
    using m fresh by (cases m) (simp add: reduceConf_def spread_def update_fresh)
  have "config (foldl reduceConf (reduceConf acc m) ms) =
          config (reduceConf acc m) @ concat (map fst ms)"
    using Cons.prems m by (intro Cons.IH) (auto simp: step)
  then show ?case
    using m by (simp add: step)
qed

lemma mapConfs_Inr_iff:
  "mapConfs env path entries = Inr ms \<longleftrightarrow>
   list_all2 (\<lambda>e m. getMapConfigFunction env path (fst e) (snd e) = Inr m) entries ms"
proof (induction entries arbitrary: ms)
  case Nil
  then show ?case by auto
next
  case (Cons e entries)
  obtain k n where e: "e = (k, n)" by (cases e)
  show ?case
    unfolding e
    by (auto simp: Cons.IH [symmetric] list_all2_Cons1 split: sum.splits)
qed

lemma getMap_fragment:
  "getMapConfigFunction env path key n = Inr m \<Longrightarrow> \<exists>v. fst m = [(key, v)]"
proof (cases n)
  case (Secret inner)
  then show "getMapConfigFunction env path key n = Inr m \<Longrightarrow> ?thesis"
    by (cases inner)
       (auto simp: getMap_shapes split: prod.splits if_splits sum.splits)
qed (auto simp: getMap_shapes split: prod.splits if_splits sum.splits)

lemma recursiveVerify_Inr_iff:
  "recursiveVerify entries env path = Inr r \<longleftrightarrow>
   (\<exists>ms. list_all2 (\<lambda>e m. getMapConfigFunction env path (fst e) (snd e) = Inr m) entries ms \<and>
         r = foldl reduceConf \<lparr> config = [], errors = [], secrets = [] \<rparr> ms)"
  by (auto simp: recursiveVerify.simps mapConfs_Inr_iff [symmetric] split: sum.splits)

lemma fragments_of_entries:
  assumes "list_all2 (\<lambda>e m. getMapConfigFunction env path (fst e) (snd e) = Inr m) entries ms"
  shows "list_all fragment ms \<and>
         map fst (concat (map fst ms)) = map fst entries \<and>
         list_all2 (\<lambda>e p. fst p = fst e \<and>
             (\<exists>errs secs. getMapConfigFunction env path (fst e) (snd e) = Inr ([p], errs, secs)))
           entries (concat (map fst ms))"
  using assms
proof (induction rule: list_all2_induct)
  case Nil
  then show ?case by simp
next
  case (Cons e entries m ms)
  obtain v where v: "fst m = [(fst e, v)]"
    using getMap_fragment [OF Cons.hyps(1)] by blast
  then have "getMapConfigFunction env path (fst e) (snd e) = Inr ([(fst e, v)], fst (snd m), snd (snd m))"
    using Cons.hyps(1) by (cases m) simp
  then show ?case
    using Cons.IH v by (auto simp: fragment_def)
qed

lemma recursiveVerify_config:
  assumes "recursiveVerify entries env path = Inr r" and "distinct (map fst entries)"
  shows "map fst (config r) = map fst entries"
    and "list_all2 (\<lambda>e p. fst p = fst e \<and>
             (\<exists>errs secs. getMapConfigFunction env path (fst e) (snd e) = Inr ([p], errs, secs)))
           entries (config r)"
proof -
  obtain ms where ms: "list_all2 (\<lambda>e m. getMapConfigFunction env path (fst e) (snd e) = Inr m) entries ms"
    and r: "r = foldl reduceConf \<lparr> config = [], errors = [], secrets = [] \<rparr> ms"
    using assms(1) by (auto simp: recursiveVerify_Inr_iff)
  note f = fragments_of_entries [OF ms]
  have "config r = concat (map fst ms)"
    unfolding r using f assms(2) by (subst config_foldl_reduceConf) auto
  then show "map fst (config r) = map fst entries"
    and "list_all2 (\<lambda>e p. fst p = fst e \<and>
             (\<exists>errs secs. getMapConfigFunction env path (fst e) (snd e) = Inr ([p], errs, secs)))
           entries (config r)"
    using f by simp_all
qed

lemma recursiveVerify_Nil:
  "recursiveVerify [] env path = Inr \<lparr> config = [], errors = [], secrets = [] \<rparr>"
  by (simp add: recursiveVerify.simps)

lemma recursiveVerify_Cons_Inl:
  "getMapConfigFunction env path k n = Inl e \<Longrightarrow> recursiveVerify ((k, n) # rest) env path = Inl e"
  by (simp add: recursiveVerify.simps)

lemma recursiveVerify_Cons_Inl2:
  "getMapConfigFunction env path k n = Inr m \<Longrightarrow> recursiveVerify rest env path = Inl e \<Longrightarrow>
   recursiveVerify ((k, n) # rest) env path = Inl e"
  by (auto simp: recursiveVerify.simps split: sum.splits)

lemma recursiveVerify_Cons_Inr:
  assumes "getMapConfigFunction env path k n = Inr m" and "recursiveVerify rest env path = Inr r"
  shows "\<exists>r'. recursiveVerify ((k, n) # rest) env path = Inr r' \<and>
           errors r' = fst (snd m) @ errors r \<and>
           secrets r' = snd (snd m) @ secrets r \<and>
           (distinct (k # map fst rest) \<longrightarrow> config r' = fst m @ config r)"
proof -
  obtain ms where ms: "mapConfs env path rest = Inr ms"
    and r: "r = foldl reduceConf \<lparr> config = [], errors = [], secrets = [] \<rparr> ms"
    using assms(2) by (auto simp: recursiveVerify.simps split: sum.splits)
  let ?r' = "foldl reduceConf \<lparr> config = [], errors = [], secrets = [] \<rparr> (m # ms)"
  have ret: "recursiveVerify ((k, n) # rest) env path = Inr ?r'"
    using assms(1) ms by (simp add: recursiveVerify.simps)
  have all: "list_all2 (\<lambda>e m. getMapConfigFunction env path (fst e) (snd e) = Inr m)
               ((k, n) # rest) (m # ms)"
    using assms(1) ms by (simp add: mapConfs_Inr_iff)
  have "distinct (k # map fst rest) \<Longrightarrow> config ?r' = fst m @ config r"
  proof -
    assume d: "distinct (k # map fst rest)"
    have "config ?r' = concat (map fst (m # ms))"
      using fragments_of_entries [OF all] d by (subst config_foldl_reduceConf) auto
    moreover have "config r = concat (map fst ms)"
      unfolding r using fragments_of_entries [of env path rest ms] all d
      by (subst config_foldl_reduceConf) auto
    ultimately show ?thesis by simp
  qed
  then show ?thesis
    using ret
    by (auto simp: r errors_foldl_reduceConf secrets_foldl_reduceConf reduceConf_def
          split: prod.splits)
qed

lemmas leaf_defs = leaf_errors_def leaf_secrets_def leaf_returns_def plain_lookup_def

lemma resolver_traversal:
  "(\<forall>path key. subPathOf path key = p \<longrightarrow>
      (\<forall>m. getMapConfigFunction env path key n = Inr m \<longrightarrow>
         snd (snd m) = concat (map leaf_secrets (node_leaves p n)) \<and>
         (wf_node n \<longrightarrow> (\<exists>v. fst m = [(key, v)] \<and> value_keys n v))) \<and>
      (list_all plain_lookup (node_leaves p n) \<longrightarrow>
         (\<not> isl (getMapConfigFunction env path key n) \<longleftrightarrow>
            list_all (leaf_returns env) (node_leaves p n)) \<and>
         (\<forall>m. getMapConfigFunction env path key n = Inr m \<longrightarrow>
            fst (snd m) = concat (map (leaf_errors env) (node_leaves p n)))))"
  and resolver_traversal_entries:
  "(\<forall>r. recursiveVerify entries env path' = Inr r \<longrightarrow>
      secrets r = concat (map leaf_secrets (leaves path' entries)) \<and>
      (wf_entries entries \<longrightarrow> same_keys entries (config r))) \<and>
   (list_all plain_lookup (leaves path' entries) \<longrightarrow>
      (\<not> isl (recursiveVerify entries env path') \<longleftrightarrow>
         list_all (leaf_returns env) (leaves path' entries)) \<and>
      (\<forall>r. recursiveVerify entries env path' = Inr r \<longrightarrow>
         errors r = concat (map (leaf_errors env) (leaves path' entries))))"
proof (induction p n and path' entries rule: node_leaves_leaves.induct)
  case (1 p entries)
  then show ?case
    by (auto simp: getMap_Nested split: sum.splits)
next
  case (2 p entries)
  then show ?case
    by (auto simp: getMap_Secret_Nested split: sum.splits)
next
  case (3 p inner)
  show ?case
  proof (intro allI impI)
    fix path key
    assume p: "subPathOf path key = p"
    note IH = 3 [rule_format, OF refl]
    have rv: "recursiveVerify [(''secret'', inner)] env p =
        (case getMapConfigFunction env p ''secret'' inner of
           Inl e \<Rightarrow> Inl e
         | Inr m \<Rightarrow> Inr (reduceConf \<lparr> config = [], errors = [], secrets = [] \<rparr> m))"
      by (simp add: recursiveVerify.simps split: sum.splits)
    show "(\<forall>m. getMapConfigFunction env path key (Secret (Secret inner)) = Inr m \<longrightarrow>
         snd (snd m) = concat (map leaf_secrets (node_leaves p (Secret (Secret inner)))) \<and>
         (wf_node (Secret (Secret inner)) \<longrightarrow>
            (\<exists>v. fst m = [(key, v)] \<and> value_keys (Secret (Secret inner)) v))) \<and>
      (list_all plain_lookup (node_leaves p (Secret (Secret inner))) \<longrightarrow>
         (\<not> isl (getMapConfigFunction env path key (Secret (Secret inner))) \<longleftrightarrow>
            list_all (leaf_returns env) (node_leaves p (Secret (Secret inner)))) \<and>
         (\<forall>m. getMapConfigFunction env path key (Secret (Secret inner)) = Inr m \<longrightarrow>
            fst (snd m) =
              concat (map (leaf_errors env) (node_leaves p (Secret (Secret inner))))))"
      using IH
      by (auto simp: getMap_Secret_Secret p rv reduceConf_def spread_def split: sum.splits prod.splits)
  qed
next
  case (5 path)
  then show ?case by (simp add: recursiveVerify_Nil)
next
  case (6 path k n rest)
  note IHn = 6(1) [rule_format, OF refl]
  note IHr = 6(2)
  have d: "wf_entries rest \<Longrightarrow> distinct (map fst rest)" for rest
    by (induction rest) force+
  have first: "secrets r' = concat (map leaf_secrets (leaves path ((k, n) # rest))) \<and>
      (wf_entries ((k, n) # rest) \<longrightarrow> same_keys ((k, n) # rest) (config r'))"
    if r': "recursiveVerify ((k, n) # rest) env path = Inr r'" for r'
  proof -
    from r' obtain m where m: "getMapConfigFunction env path k n = Inr m"
      by (cases "getMapConfigFunction env path k n") (auto simp: recursiveVerify_Cons_Inl)
    from r' m obtain r where r: "recursiveVerify rest env path = Inr r"
      by (cases "recursiveVerify rest env path") (auto simp: recursiveVerify_Cons_Inl2)
    from recursiveVerify_Cons_Inr [OF m r] r' have
      s: "secrets r' = snd (snd m) @ secrets r" and
      c: "distinct (k # map fst rest) \<longrightarrow> config r' = fst m @ config r"
      by auto
    have n3: "snd (snd m) = concat (map leaf_secrets (node_leaves (subPathOf path k) n))"
      and n4: "wf_node n \<Longrightarrow> \<exists>v. fst m = [(k, v)] \<and> value_keys n v"
      using IHn m by auto
    have r3: "secrets r = concat (map leaf_secrets (leaves path rest))"
      and r4: "wf_entries rest \<Longrightarrow> same_keys rest (config r)"
      using IHr r by auto
    have "same_keys ((k, n) # rest) (config r')" if wf: "wf_entries ((k, n) # rest)"
    proof -
      have "config r' = fst m @ config r"
        using c wf d [of rest] by simp
      then show ?thesis
        using n4 r4 wf by auto
    qed
    then show ?thesis
      using s n3 r3 by simp
  qed
  have second: "(\<not> isl (recursiveVerify ((k, n) # rest) env path) \<longleftrightarrow>
         list_all (leaf_returns env) (leaves path ((k, n) # rest))) \<and>
      (\<forall>r. recursiveVerify ((k, n) # rest) env path = Inr r \<longrightarrow>
         errors r = concat (map (leaf_errors env) (leaves path ((k, n) # rest))))"
    if plain: "list_all plain_lookup (leaves path ((k, n) # rest))"
  proof -
    have pn: "list_all plain_lookup (node_leaves (subPathOf path k) n)"
      and pr: "list_all plain_lookup (leaves path rest)"
      using plain by simp_all
    note Hn = IHn [THEN conjunct2, rule_format, OF pn]
    note Hr = IHr [THEN conjunct2, rule_format, OF pr]
    show ?thesis
    proof (cases "getMapConfigFunction env path k n")
      case (Inl e)
      then show ?thesis
        using Hn by (auto simp: recursiveVerify_Cons_Inl)
    next
      case m: (Inr m)
      show ?thesis
      proof (cases "recursiveVerify rest env path")
        case (Inl e)
        then show ?thesis
          using Hr m by (auto simp: recursiveVerify_Cons_Inl2)
      next
        case r: (Inr r)
        from recursiveVerify_Cons_Inr [OF m r] obtain r' where
          r': "recursiveVerify ((k, n) # rest) env path = Inr r'"
            "errors r' = fst (snd m) @ errors r"
          by blast
        have "list_all (leaf_returns env) (node_leaves (subPathOf path k) n)"
          and "fst (snd m) = concat (map (leaf_errors env) (node_leaves (subPathOf path k) n))"
          using Hn m by auto
        moreover have "list_all (leaf_returns env) (leaves path rest)"
          and "errors r = concat (map (leaf_errors env) (leaves path rest))"
          using Hr r by auto
        ultimately show ?thesis
          using r' by simp
      qed
    qed
  qed
  show ?case
    using first second by blast
qed (auto simp: getMap_shapes leaf_defs lookup_plain split: option.splits sum.splits prod.splits if_splits)

section \<open>Shape of the resolved config\<close>

text \<open>
  C2. Whatever the environment, the config that the resolver returns has the key set of
  the schema at every nesting depth: the same keys, each once and in the same order,
  also where a lookup failed.
\<close>

theorem resolved_keys_mirror_schema:
  assumes "wf_entries schema" and "recursiveVerify schema env path = Inr r"
  shows "same_keys schema (config r) \<and> map fst (config r) = map fst schema"
proof -
  have "distinct (map fst entries)" if "wf_entries entries" for entries
    using that by (induction entries) force+
  then show ?thesis
    using assms resolver_traversal_entries [of schema env path] recursiveVerify_config(1)
    by blast
qed

theorem resolved_keys_mirror_schema_witness:
  "wf_entries [(''db'', Nested [(''name'', EnvKey ''DB_NAME''),
                               (''password'', secret (EnvKey ''DB_PASSWORD''))]),
               (''baseUrl'', EnvKey ''BASE_URL'')] \<and>
   recursiveVerify [(''db'', Nested [(''name'', EnvKey ''DB_NAME''),
                                    (''password'', secret (EnvKey ''DB_PASSWORD''))]),
                    (''baseUrl'', EnvKey ''BASE_URL'')] [''DB_NAME'' \<mapsto> ''prod''] [] =
     Inr \<lparr> config = [(''db'', Obj [(''name'', Str ''prod''), (''password'', Undefined)]),
                      (''baseUrl'', Undefined)],
           errors = [Error ''environment value DB_PASSWORD is missing from config object at db.password'',
                     Error ''environment value BASE_URL is missing from config object at baseUrl''],
           secrets = [''db.password''] \<rparr> \<and>
   same_keys [(''db'', Nested [(''name'', EnvKey ''DB_NAME''),
                              (''password'', secret (EnvKey ''DB_PASSWORD''))]),
              (''baseUrl'', EnvKey ''BASE_URL'')]
     [(''db'', Obj [(''name'', Str ''prod''), (''password'', Undefined)]),
      (''baseUrl'', Undefined)]"
  using resolved_keys_mirror_schema
          [of "[(''db'', Nested [(''name'', EnvKey ''DB_NAME''),
                                (''password'', secret (EnvKey ''DB_PASSWORD''))]),
                (''baseUrl'', EnvKey ''BASE_URL'')]"
              "[''DB_NAME'' \<mapsto> ''prod'']" "[]"]
  by (simp add: resolver_eval)

section \<open>Errors are collected, exceptions are not\<close>






section \<open>strictVerify\<close>




section \<open>State shared between calls\<close>


text \<open>
  What the later call's config then renders is the first call's config, sanitized with
  the first call's secret paths.
\<close>

lemma later_toString_is_earlier_closure:
  assumes "verify schema1 env1 w = (Inr (cfg1, errs1), w1)"
    and "recursiveVerify schema1 env1 [] = Inr r1" and "secrets r1 \<noteq> []"
    and "recursiveVerify schema2 env2 [] = Inr r2" and "secrets r2 = []"
  shows "plain_toString stringify (snd (verify schema2 env2 w1)) =
           toStringCurried stringify (secrets r1) cfg1"
  using assms by (auto simp: verify_def plain_toString_def split: sum.splits)



section \<open>The redactor, step by step\<close>

lemma nested_results_Nil [simp]: "nested_results cfg [] = []"
  by (simp add: nested_results_def)

lemma nested_results_Cons [simp]:
  "nested_results cfg ((parent, children) # grouped) =
     (parent, case get_prop cfg parent of Inl e \<Rightarrow> Inl e | Inr sub \<Rightarrow> recursiveToString children sub)
       # nested_results cfg grouped"
  by (simp add: nested_results_def)
lemma recursiveToString_unfold:
  "recursiveToString secretPaths cfg =
     (case seperateSecretsByNestLevel secretPaths of
        Inl e \<Rightarrow> Inl e
      | Inr (secretsAtThisLevel, deepSecrets) \<Rightarrow>
          (case own_keys cfg of
             Inl e \<Rightarrow> Inl e
           | Inr keys \<Rightarrow>
               (case groupedNestedSecrets deepSecrets of
                  Inl e \<Rightarrow> Inl e
                | Inr grouped \<Rightarrow>
                    (case collect [] (nested_results cfg grouped) of
                       Inl e \<Rightarrow> Inl e
                     | Inr nested \<Rightarrow>
                         Inr (Obj (spread (spread (own_props cfg)
                                    (markers (filter (\<lambda>k. k \<in> set secretsAtThisLevel) keys)))
                                  nested))))))"
  by (subst recursiveToString.simps)
     (simp add: nested_results_def markers_def Let_def split: sum.splits prod.splits)

lemmas redactor_eval = recursiveToString_unfold seperateSecretsByNestLevel_def
  groupedNestedSecrets_def group_step_def inherited_def object_prototype_functions_def
  parent_of_def child_of_def
  seperateParentFromChildren_def is_line_terminator_def markers_def spread_def Let_def

subsection \<open>Spreading\<close>

lemma map_of_spread:
  "distinct (map fst b) \<Longrightarrow> map_of (spread a b) = map_of a ++ map_of b"
  unfolding spread_def
proof (induction b arbitrary: a)
  case Nil
  then show ?case by simp
next
  case (Cons kv b)
  obtain k v where kv: "kv = (k, v)" by (cases kv)
  have "map_of b k = None"
    using Cons.prems by (auto simp: kv map_of_eq_None_iff)
  then show ?case
    using Cons.prems
    by (auto simp: kv Cons.IH AList.update_conv' fun_eq_iff map_add_def split: option.splits)
qed

lemma keys_spread: "fst ` set (spread a b) = fst ` set a \<union> fst ` set b"
  unfolding spread_def
  by (induction b arbitrary: a) (auto simp: AList.dom_update split: prod.splits)

lemma map_fst_spread_same:
  "fst ` set b \<subseteq> fst ` set a \<Longrightarrow> map fst (spread a b) = map fst a"
  unfolding spread_def
proof (induction b arbitrary: a)
  case Nil
  then show ?case by simp
next
  case (Cons kv b)
  obtain k v where kv: "kv = (k, v)" by (cases kv)
  have 1: "map fst (AList.update k v a) = map fst a"
    using Cons.prems by (auto simp: kv AList.update_keys)
  have "map fst (fold (\<lambda>(k, v). AList.update k v) b (AList.update k v a)) =
          map fst (AList.update k v a)"
    using Cons.prems by (intro Cons.IH) (auto simp: kv AList.dom_update)
  then show ?case
    by (simp add: kv 1)
qed

lemma distinct_spread: "distinct (map fst a) \<Longrightarrow> distinct (map fst (spread a b))"
  unfolding spread_def
  by (induction b arbitrary: a) (auto simp: AList.distinct_update split: prod.splits)

lemma spread_Nil_distinct: "distinct (map fst b) \<Longrightarrow> spread [] b = b"
proof -
  have "distinct (map fst (a @ b)) \<Longrightarrow> spread a b = a @ b" for a
    unfolding spread_def
  proof (induction b arbitrary: a)
    case Nil
    then show ?case by simp
  next
    case (Cons kv b)
    obtain k v where kv: "kv = (k, v)" by (cases kv)
    have "AList.update k v a = a @ [(k, v)]"
      using Cons.prems by (intro update_fresh) (auto simp: kv)
    then show ?case
      using Cons.IH [of "a @ [(k, v)]"] Cons.prems by (simp add: kv)
  qed
  from this [of "[]"] show "distinct (map fst b) \<Longrightarrow> spread [] b = b" by simp
qed

lemma alist_eqI:
  assumes "map fst xs = map fst ys" and "distinct (map fst xs)" and "map_of xs = map_of ys"
  shows "xs = ys"
  using assms
proof (induction xs arbitrary: ys)
  case Nil
  then show ?case by simp
next
  case (Cons x xs)
  then obtain y ys' where ys: "ys = y # ys'" by (cases ys) auto
  have fst: "fst x = fst y" using Cons.prems(1) ys by simp
  have "map_of (x # xs) (fst x) = Some (snd x)" "map_of (y # ys') (fst y) = Some (snd y)"
    by simp_all
  then have "snd x = snd y"
    using fun_cong [OF Cons.prems(3), of "fst x"] ys fst by (simp del: map_of.simps)
  then have xy: "x = y" using fst by (simp add: prod_eq_iff)
  have "map_of xs k = map_of ys' k" for k
  proof (cases "k = fst x")
    case True
    have "map fst ys' = map fst xs"
      using Cons.prems(1) ys by simp
    moreover have "k \<notin> set (map fst xs)"
      using Cons.prems(2) True by simp
    ultimately have "k \<notin> set (map fst xs)" "k \<notin> set (map fst ys')"
      by simp_all
    then have "map_of xs k = None" "map_of ys' k = None"
      by (simp_all add: map_of_eq_None_iff)
    then show ?thesis by simp
  next
    case False
    then show ?thesis
      using fun_cong [OF Cons.prems(3), of k] ys xy by (cases x) auto
  qed
  then have "xs = ys'"
    using Cons.prems ys by (intro Cons.IH) auto
  then show ?case using xy ys by simp
qed

subsection \<open>The markers\<close>

lemma markers_foldl:
  "map_of (foldl (\<lambda>acc key. AList.update key v acc) acc ks) k =
     (if k \<in> set ks then Some v else map_of acc k) \<and>
   fst ` set (foldl (\<lambda>acc key. AList.update key v acc) acc ks) = fst ` set acc \<union> set ks"
  by (induction ks arbitrary: acc) (auto simp: AList.update_conv' AList.dom_update)

lemma map_of_markers:
  "map_of (markers ks) k = (if k \<in> set ks then Some (Str ''[secret]'') else None)"
  using markers_foldl [of "Str ''[secret]''" "[]" ks k] by (simp add: markers_def)

lemma keys_markers: "fst ` set (markers ks) = set ks"
  using markers_foldl [of "Str ''[secret]''" "[]" ks] by (simp add: markers_def)

subsection \<open>Collecting the recursive results\<close>

lemma collect_Inr_iff:
  "collect acc rs = Inr nested \<longleftrightarrow>
   list_all (\<lambda>r. \<not> isl (snd r)) rs \<and>
   nested = spread acc (map (\<lambda>r. (fst r, projr (snd r))) rs)"
proof (induction rs arbitrary: acc)
  case Nil
  then show ?case by (auto simp: spread_def)
next
  case (Cons pr rs)
  obtain p r where pr: "pr = (p, r)" by (cases pr)
  show ?case
    unfolding pr by (cases r) (auto simp: Cons.IH spread_def)
qed

lemma collect_Inl:
  "collect acc rs = Inl e \<Longrightarrow> \<exists>p. (p, Inl e) \<in> set rs"
  by (induction rs arbitrary: acc) (auto split: sum.splits)

subsection \<open>Own properties\<close>

lemma decimal_nonempty: "decimal n \<noteq> []"
  by (subst decimal.simps) simp

lemma digit_char_inj: "a < 10 \<Longrightarrow> b < 10 \<Longrightarrow> digit_char a = digit_char b \<Longrightarrow> a = b"
proof -
  assume "a < 10" "b < 10" "digit_char a = digit_char b"
  moreover have "distinct ''0123456789''" by simp
  ultimately show "a = b"
    unfolding digit_char_def by (simp add: nth_eq_iff_index_eq)
qed

lemma decimal_inj: "decimal n = decimal m \<Longrightarrow> n = m"
proof (induction n arbitrary: m rule: decimal.induct)
  case (1 n)
  show ?case
  proof (cases "n < 10")
    case n: True
    show ?thesis
    proof (cases "m < 10")
      case True
      then show ?thesis
        using 1(2) n digit_char_inj [of n m]
        by (simp add: decimal.simps [of n] decimal.simps [of m])
    next
      case False
      then show ?thesis
        using 1(2) n decimal_nonempty [of "m div 10"]
        by (simp add: decimal.simps [of n] decimal.simps [of m])
    qed
  next
    case n: False
    show ?thesis
    proof (cases "m < 10")
      case True
      then show ?thesis
        using 1(2) n decimal_nonempty [of "n div 10"]
        by (simp add: decimal.simps [of n] decimal.simps [of m])
    next
      case False
      then have eq: "decimal (n div 10) = decimal (m div 10)"
        and d: "digit_char (n mod 10) = digit_char (m mod 10)"
        using 1(2) n by (simp_all add: decimal.simps [of n] decimal.simps [of m])
      have "n div 10 = m div 10"
        using 1(1) [OF n eq] .
      moreover have "n mod 10 = m mod 10"
        using d by (intro digit_char_inj) simp_all
      ultimately show ?thesis
        by (metis div_mult_mod_eq)
    qed
  qed
qed

lemma distinct_own_props: "wf_val c \<Longrightarrow> distinct (map fst (own_props c))"
proof (cases c)
  case (Str s)
  have "inj_on decimal (set [0..<length s])"
    by (auto simp: inj_on_def dest: decimal_inj)
  then show ?thesis
    by (simp add: Str distinct_map comp_def)
qed simp_all

lemma own_keys_Inr:
  "own_keys c = Inr keys \<Longrightarrow> keys = map fst (own_props c) \<and> c \<noteq> Undefined \<and> c \<noteq> Null"
  by (cases c) auto

lemma get_prop_Inr: "c \<noteq> Undefined \<Longrightarrow> c \<noteq> Null \<Longrightarrow> \<exists>sub. get_prop c p = Inr sub"
  by (cases c) auto

lemma wf_get_prop: "wf_val c \<Longrightarrow> get_prop c p = Inr sub \<Longrightarrow> wf_val sub"
proof (cases c)
  case (Obj props)
  assume "wf_val c" "get_prop c p = Inr sub"
  then show ?thesis
    by (auto simp: Obj inherited_def split: option.splits dest!: map_of_SomeD)
next
  case (Str s)
  assume "get_prop c p = Inr sub"
  then show ?thesis
    by (auto simp: Str split: option.splits if_splits dest!: map_of_SomeD)
qed auto

lemma distinct_foldl_add_child:
  "distinct (map fst acc) \<Longrightarrow> distinct (map fst (foldl add_child acc partss))"
  by (induction partss arbitrary: acc) (simp_all add: add_child_def AList.distinct_update)

lemma distinct_grouped: "distinct (map fst (groups deep))"
  by (simp add: groups_def distinct_foldl_add_child)

lemma distinct_markers: "distinct (map fst (markers ks))"
proof -
  have "distinct (map fst acc) \<Longrightarrow>
        distinct (map fst (foldl (\<lambda>acc key. AList.update key v acc) acc ks))" for acc and v :: jsval
    by (induction ks arbitrary: acc) (simp_all add: AList.distinct_update)
  from this [of "[]"] show ?thesis by (simp add: markers_def)
qed

subsection \<open>A second pass changes nothing\<close>

text \<open>What a call that returns has computed.\<close>

lemma recursiveToString_InrE:
  assumes "recursiveToString S c = Inr r"
  obtains tl deep N where
    "seperateSecretsByNestLevel S = Inr (tl, deep)"
    "own_keys c = Inr (map fst (own_props c))"
    "c \<noteq> Undefined" "c \<noteq> Null"
    "groupedNestedSecrets deep = Inr (groups deep)"
    "collect [] (nested_results c (groups deep)) = Inr N"
    "r = Obj (spread (spread (own_props c)
                (markers (filter (\<lambda>k. k \<in> set tl) (map fst (own_props c))))) N)"
  using assms
  by (subst (asm) recursiveToString_unfold)
     (auto split: sum.splits prod.splits dest: own_keys_Inr dest!: grouped_Inr)

lemma nested_of_collect:
  assumes "collect [] (nested_results c G) = Inr N" and "distinct (map fst G)"
  shows "N = map (\<lambda>r. (fst r, projr (snd r))) (nested_results c G)"
    and "map fst N = map fst G"
    and "\<And>p cs. (p, cs) \<in> set G \<Longrightarrow> \<exists>sub v. get_prop c p = Inr sub \<and>
            recursiveToString cs sub = Inr v \<and> map_of N p = Some v"
proof -
  let ?rs = "nested_results c G"
  have keys: "map fst (map (\<lambda>r. (fst r, projr (snd r))) ?rs) = map fst G"
    by (simp add: nested_results_def comp_def case_prod_beta)
  have all: "list_all (\<lambda>r. \<not> isl (snd r)) ?rs"
    and N0: "N = spread [] (map (\<lambda>r. (fst r, projr (snd r))) ?rs)"
    using assms(1) by (simp_all add: collect_Inr_iff)
  show N: "N = map (\<lambda>r. (fst r, projr (snd r))) ?rs"
    unfolding N0 using keys assms(2) by (intro spread_Nil_distinct) simp
  show keysN: "map fst N = map fst G"
    using N keys by simp
  fix p cs
  assume pc: "(p, cs) \<in> set G"
  let ?res = "case get_prop c p of Inl e \<Rightarrow> Inl e | Inr sub \<Rightarrow> recursiveToString cs sub"
  have in_rs: "(p, ?res) \<in> set ?rs"
    using pc by (force simp: nested_results_def)
  then have "\<not> isl ?res"
    using all by (auto simp: list_all_iff)
  then obtain sub v where sub: "get_prop c p = Inr sub" and v: "recursiveToString cs sub = Inr v"
    by (cases "get_prop c p"; cases ?res) (auto split: sum.splits)
  have "(p, v) \<in> set N"
    using in_rs sub v unfolding N by force
  moreover have "distinct (map fst N)"
    using keysN assms(2) by simp
  ultimately have "map_of N p = Some v"
    by simp
  then show "\<exists>sub v. get_prop c p = Inr sub \<and> recursiveToString cs sub = Inr v \<and> map_of N p = Some v"
    using sub v by blast
qed

lemma redact_idem:
  "wf_val c \<Longrightarrow> recursiveToString S c = Inr r \<Longrightarrow> recursiveToString S r = Inr r"
proof (induction S c arbitrary: r rule: recursiveToString.induct)
  case (1 S c)
  from "1.prems"(2) obtain tl deep N where
    sep: "seperateSecretsByNestLevel S = Inr (tl, deep)" and
    keys: "own_keys c = Inr (map fst (own_props c))" and
    grp: "groupedNestedSecrets deep = Inr (groups deep)" and
    coll: "collect [] (nested_results c (groups deep)) = Inr N" and
    r: "r = Obj (spread (spread (own_props c)
                (markers (filter (\<lambda>k. k \<in> set tl) (map fst (own_props c))))) N)"
    by (rule recursiveToString_InrE)
  let ?G = "groups deep"
  let ?a = "own_props c"
  let ?M = "markers (filter (\<lambda>k. k \<in> set tl) (map fst ?a))"
  let ?rp = "spread (spread ?a ?M) N"
  note dG = distinct_grouped [of deep]
  note nest = nested_of_collect [OF coll dG]
  have dN: "distinct (map fst N)"
    using nest(2) dG by simp
  have da: "distinct (map fst ?a)"
    using "1.prems"(1) by (rule distinct_own_props)
  have drp: "distinct (map fst ?rp)"
    using da by (intro distinct_spread)
  have map_rp: "map_of ?rp = map_of ?a ++ map_of ?M ++ map_of N"
    by (simp add: map_of_spread dN distinct_markers)
  \<comment> \<open>the recursive calls of the second pass give what the first pass gave\<close>
  have step: "(case get_prop (Obj ?rp) p of Inl e \<Rightarrow> Inl e | Inr sub \<Rightarrow> recursiveToString cs sub) =
        (case get_prop c p of Inl e \<Rightarrow> Inl e | Inr sub \<Rightarrow> recursiveToString cs sub)"
    if pc: "(p, cs) \<in> set ?G" for p cs
  proof -
    from nest(3) [OF pc] obtain sub v where
      sub: "get_prop c p = Inr sub" and v: "recursiveToString cs sub = Inr v" and
      Np: "map_of N p = Some v"
      by blast
    have "wf_val sub"
      using "1.prems"(1) sub by (rule wf_get_prop)
    then have "recursiveToString cs v = Inr v"
      using "1.IH" [OF sep refl keys grp refl pc refl sub] v by blast
    moreover have "get_prop (Obj ?rp) p = Inr v"
      using Np by (simp add: map_rp)
    ultimately show ?thesis
      using sub v by simp
  qed
  have same: "nested_results (Obj ?rp) ?G = nested_results c ?G"
    unfolding nested_results_def
    by (intro map_cong refl) (auto simp del: get_prop.simps simp: step)
  let ?M' = "markers (filter (\<lambda>k. k \<in> set tl) (map fst ?rp))"
  have keysN: "fst ` set N \<subseteq> fst ` set ?rp"
    by (simp add: keys_spread)
  have keysM': "fst ` set ?M' \<subseteq> fst ` set ?rp"
    by (auto simp: keys_markers)
  have k1: "map fst (spread ?rp ?M') = map fst ?rp"
    using keysM' by (rule map_fst_spread_same)
  have k2: "map fst (spread (spread ?rp ?M') N) = map fst ?rp"
    using keysN k1 by (subst map_fst_spread_same) (auto simp: keys_spread)
  have "map_of (spread (spread ?rp ?M') N) k = map_of ?rp k" for k
  proof (cases "map_of N k")
    case (Some v)
    then show ?thesis
      by (simp add: map_of_spread dN distinct_markers map_add_def)
  next
    case None
    then have kN: "k \<notin> fst ` set N"
      by (simp add: map_of_eq_None_iff)
    show ?thesis
    proof (cases "k \<in> set tl \<and> k \<in> fst ` set ?rp")
      case True
      then have "k \<in> fst ` set ?a"
        using kN by (auto simp: keys_spread keys_markers)
      then have "map_of ?M k = Some (Str ''[secret]'')"
        using True by (simp add: map_of_markers)
      then have "map_of ?rp k = Some (Str ''[secret]'')"
        using None by (simp add: map_rp map_add_def)
      moreover have "map_of ?M' k = Some (Str ''[secret]'')"
        using True by (simp add: map_of_markers)
      ultimately show ?thesis
        using None by (simp add: map_of_spread dN distinct_markers map_add_def)
    next
      case False
      then have "map_of ?M' k = None"
        by (auto simp: map_of_markers)
      then show ?thesis
        using None by (simp add: map_of_spread dN distinct_markers map_add_def)
    qed
  qed
  then have "spread (spread ?rp ?M') N = ?rp"
    using k2 drp by (intro alist_eqI) (auto simp: k2)
  then show ?case
    unfolding r
    by (subst recursiveToString_unfold) (simp add: sep grp same coll)
qed

subsection \<open>Dotted paths and their groups\<close>

lemma split_dot_nonempty: "split_dot s \<noteq> []"
  by (induction s) (auto split: list.splits)

lemma split_dot_length: "Suc 0 < length (split_dot s) \<longleftrightarrow> CHR ''.'' \<in> set s"
  using split_dot_nonempty by (induction s) (auto split: list.splits)

lemma join_Cons:
  "join sep (x # xs) = (if xs = [] then x else x @ sep @ join sep xs)"
  by (cases xs) simp_all

lemma join_dot_iff:
  "\<forall>k \<in> set ks. CHR ''.'' \<notin> set k \<Longrightarrow> CHR ''.'' \<in> set (join ''.'' ks) \<longleftrightarrow> 2 \<le> length ks"
proof (induction ks)
  case Nil
  then show ?case by simp
next
  case (Cons k ks)
  then show ?case by (cases ks) (simp_all add: join_Cons)
qed

lemma join_nonempty: "ks \<noteq> [] \<Longrightarrow> \<forall>k \<in> set ks. k \<noteq> [] \<Longrightarrow> join sep ks \<noteq> []"
  by (cases ks) (auto simp: join_Cons)

lemma dot_no_terminator: "\<not> is_line_terminator CHR ''.''"
  by (simp add: is_line_terminator_def)

lemma join_no_terminator:
  "\<forall>k \<in> set ks. \<forall>c \<in> set k. \<not> is_line_terminator c \<Longrightarrow>
   \<forall>c \<in> set (join ''.'' ks). \<not> is_line_terminator c"
proof (induction ks)
  case Nil
  then show ?case by simp
next
  case (Cons k ks)
  then show ?case by (cases ks) (auto simp: join_Cons dot_no_terminator)
qed

lemma regex_split_key:
  assumes "\<forall>c \<in> set k. c \<noteq> CHR ''.''" and "rest \<noteq> []"
    and "\<forall>c \<in> set rest. \<not> is_line_terminator c"
  shows "regex_split chunk (k @ CHR ''.'' # rest) = [rev chunk @ k, rest, []]"
  using assms
proof (induction k arbitrary: chunk)
  case Nil
  have hd: "\<not> is_line_terminator (hd rest)"
    using Nil.prems(2,3) by (cases rest) auto
  have tw: "takeWhile (\<lambda>x. \<not> is_line_terminator x) rest = rest"
    and dw: "dropWhile (\<lambda>x. \<not> is_line_terminator x) rest = []"
    using Nil.prems(3) by simp_all
  have "regex_split chunk (CHR ''.'' # rest) =
          rev chunk # takeWhile (\<lambda>x. \<not> is_line_terminator x) rest
            # regex_split [] (dropWhile (\<lambda>x. \<not> is_line_terminator x) rest)"
    using hd Nil.prems(2) by simp
  also have "\<dots> = [rev chunk, rest, []]"
    unfolding tw dw by simp
  finally show ?case by simp
next
  case (Cons c k)
  then show ?case by simp
qed


lemma seperate_join:
  assumes "good_path (k # k' # ks)"
  shows "seperateParentFromChildren (join ''.'' (k # k' # ks)) = [k, join ''.'' (k' # ks), []]"
proof -
  have "join ''.'' (k' # ks) \<noteq> []"
    using assms by (intro join_nonempty) (auto simp: good_path_def good_key_def)
  moreover have "\<forall>c \<in> set (join ''.'' (k' # ks)). \<not> is_line_terminator c"
    using assms by (intro join_no_terminator) (auto simp: good_path_def good_key_def)
  moreover have "\<forall>c \<in> set k. c \<noteq> CHR ''.''"
    using assms by (auto simp: good_path_def good_key_def)
  ultimately show ?thesis
    using regex_split_key [of k "join ''.'' (k' # ks)" "[]"]
    by (simp add: seperateParentFromChildren_def)
qed

lemma parent_child_join:
  assumes "good_path (k # k' # ks)"
  shows "parent_of (seperateParentFromChildren (join ''.'' (k # k' # ks))) = k"
    and "child_of (seperateParentFromChildren (join ''.'' (k # k' # ks))) = Some (join ''.'' (k' # ks))"
  unfolding seperate_join [OF assms] by (simp_all add: parent_of_def child_of_def)

lemma map_of_add_child:
  "map_of (add_child acc parts) p =
     (if p = parent_of parts
      then Some (case map_of acc p of Some cs \<Rightarrow> cs @ [child_of parts] | None \<Rightarrow> [child_of parts])
      else map_of acc p)"
  by (simp add: add_child_def AList.update_conv')

lemma map_of_foldl_add_child:
  "map_of (foldl add_child acc partss) p =
     (let cs = map child_of (filter (\<lambda>parts. parent_of parts = p) partss)
      in case map_of acc p of
           None \<Rightarrow> if cs = [] then None else Some cs
         | Some old \<Rightarrow> Some (old @ cs))"
proof (induction partss arbitrary: acc)
  case Nil
  then show ?case by (simp split: option.splits)
next
  case (Cons parts partss)
  show ?case
    by (simp add: Cons.IH map_of_add_child Let_def split: option.splits)
qed

lemma below_iff: "ks \<in> set (below k listed) \<longleftrightarrow> ks \<noteq> [] \<and> k # ks \<in> set listed"
  by (induction k listed rule: below.induct) auto

lemma children_below:
  assumes "\<forall>ks \<in> set listed. good_path ks"
  shows "map child_of (filter (\<lambda>parts. parent_of parts = p)
           (map seperateParentFromChildren
              (map (join ''.'') (filter (\<lambda>ks. 2 \<le> length ks) listed)))) =
         map (Some \<circ> join ''.'') (below p listed)"
  using assms
proof (induction p listed rule: below.induct)
  case (1 k)
  then show ?case by simp
next
  case (2 k k' k'' ks rest)
  have gp: "good_path (k' # k'' # ks)" and rest: "\<forall>ks \<in> set rest. good_path ks"
    using "2.prems" by simp_all
  note pc = parent_child_join [OF gp]
  show ?case
  proof (cases "k' = k")
    case True
    then show ?thesis
      using "2.IH"(1) rest pc by (simp del: join.simps)
  next
    case False
    then show ?thesis
      using "2.IH"(2) rest pc by (simp del: join.simps)
  qed
qed simp_all

lemma those_map_Some_fun: "those (map (\<lambda>x. Some (f x)) xs) = Some (map f xs)"
  by (induction xs) simp_all

lemma seperate_listed:
  assumes "\<forall>ks \<in> set listed. good_path ks"
  shows "\<exists>tl. seperateSecretsByNestLevel (map (Some \<circ> join ''.'') listed) =
           Inr (tl, map (join ''.'') (filter (\<lambda>ks. 2 \<le> length ks) listed)) \<and>
           (\<forall>k. k \<in> set tl \<longleftrightarrow> [k] \<in> set listed)"
proof -
  let ?ss = "map (join ''.'') listed"
  let ?nested = "filter (\<lambda>secret. length (split_dot secret) > 1) ?ss"
  let ?tl = "filter (\<lambda>secret. secret \<notin> set ?nested) ?ss"
  have dot: "CHR ''.'' \<in> set (join ''.'' ks) \<longleftrightarrow> 2 \<le> length ks" if "ks \<in> set listed" for ks
    using assms that by (intro join_dot_iff) (auto simp: good_path_def good_key_def)
  have "filter (\<lambda>ks. 1 < length (split_dot (join ''.'' ks))) listed =
          filter (\<lambda>ks. 2 \<le> length ks) listed"
    by (rule filter_cong) (auto simp: split_dot_length dot)
  then have nested: "?nested = map (join ''.'') (filter (\<lambda>ks. 2 \<le> length ks) listed)"
    by (simp add: filter_map comp_def)
  have "k \<in> set ?tl \<longleftrightarrow> [k] \<in> set listed" for k
  proof
    assume "k \<in> set ?tl"
    then obtain ks where ks: "ks \<in> set listed" "k = join ''.'' ks" "CHR ''.'' \<notin> set k"
      by (auto simp: split_dot_length)
    then have "length ks < 2" using dot by auto
    moreover have "ks \<noteq> []" using assms ks(1) by (auto simp: good_path_def)
    ultimately obtain x where "ks = [x]"
      by (cases ks; cases "tl ks") auto
    then show "[k] \<in> set listed" using ks by simp
  next
    assume k: "[k] \<in> set listed"
    then have "CHR ''.'' \<notin> set k" using dot [of "[k]"] by simp
    moreover have "k \<in> set ?ss" using k by force
    ultimately show "k \<in> set ?tl" by (auto simp: split_dot_length)
  qed
  then have tl: "\<forall>k. k \<in> set ?tl \<longleftrightarrow> [k] \<in> set listed"
    by blast
  have "seperateSecretsByNestLevel (map (Some \<circ> join ''.'') listed) = Inr (?tl, ?nested)"
    by (simp add: seperateSecretsByNestLevel_def comp_def those_map_Some_fun Let_def)
  then show ?thesis
    using tl nested by metis
qed

lemma grouped_listed:
  assumes "\<forall>ks \<in> set listed. good_path ks"
  shows "map_of (groups (map (join ''.'') (filter (\<lambda>ks. 2 \<le> length ks) listed))) p =
           (if below p listed = [] then None else Some (map (Some \<circ> join ''.'') (below p listed)))"
  unfolding groups_def map_of_foldl_add_child children_below [OF assms]
  by (simp add: Let_def)

lemma grouped_returns:
  assumes "\<forall>ks \<in> set listed. good_path ks \<and> (\<forall>k \<in> set (butlast ks). k \<notin> set inherited_names)"
  shows "groupedNestedSecrets (map (join ''.'') (filter (\<lambda>ks. 2 \<le> length ks) listed)) =
           Inr (groups (map (join ''.'') (filter (\<lambda>ks. 2 \<le> length ks) listed)))"
proof -
  have "inherited (parent_of (seperateParentFromChildren (join ''.'' ks))) = Undefined"
    if a: "ks \<in> set listed" and b: "2 \<le> length ks" for ks
  proof -
    obtain k k' ks' where ks: "ks = k # k' # ks'"
      using b by (cases ks; cases "tl ks") auto
    have "good_path (k # k' # ks')" "k \<notin> set inherited_names"
      using assms a ks by auto
    then show ?thesis
      using parent_child_join(1) [of k k' ks'] ks by (simp add: inherited_plain del: join.simps)
  qed
  then show ?thesis
    unfolding groupedNestedSecrets_def groups_def
    by (intro reduce_groups_plain) auto
qed

lemma redacted_Nil: "redacted [] v = v"
proof (induction "[] :: string list list" v rule: redacted.induct)
  case (1 props)
  have "map (\<lambda>(k, v). (k, redacted [] v)) props = props"
    using 1 by (induction props) auto
  then show ?case by simp
qed simp_all

subsection \<open>The redactor on listed chains of keys\<close>

lemma redactable_good: "redactable listed c \<Longrightarrow> \<forall>ks \<in> set listed. good_path ks"
  by (auto simp: redactable_def good_path_def)

lemma ancestors_objects_Obj: "ancestors_objects (k # ks) v \<Longrightarrow> \<exists>props. v = Obj props"
  by (cases ks; cases v) auto

lemma ancestors_objects_step:
  "ancestors_objects (p # k # ks) (Obj props) \<Longrightarrow>
   \<exists>v. map_of props p = Some v \<and> ancestors_objects (k # ks) v"
  by (auto split: option.splits)

lemma redactable_below:
  assumes "redactable listed (Obj props)" and "below p listed \<noteq> []"
  shows "\<exists>v. map_of props p = Some v \<and> redactable (below p listed) v \<and> [p] \<notin> set listed"
proof -
  from assms(2) obtain ks where "ks \<in> set (below p listed)"
    by (cases "below p listed") auto
  then have "ks \<noteq> []" "p # ks \<in> set listed"
    by (simp_all add: below_iff)
  then obtain k ks' where in_listed: "p # k # ks' \<in> set listed"
    using list.exhaust [of ks] by metis
  have anc: "ancestors_objects ks (Obj props)" if "ks \<in> set listed" for ks
    using assms(1) that by (auto simp: redactable_def)
  have pf: "\<not> proper_prefix a b" if "a \<in> set listed" "b \<in> set listed" for a b
    using assms(1) that by (simp add: redactable_def)
  from ancestors_objects_step [OF anc [OF in_listed]] obtain v where
    v: "map_of props p = Some v" by blast
  have "(p, v) \<in> set props"
    using v by (rule map_of_SomeD)
  then have wf: "wf_val v"
    using assms(1) by (force simp: redactable_def)
  have each: "ks \<noteq> [] \<and> (\<forall>k \<in> set ks. good_key k) \<and>
      (\<forall>k \<in> set (butlast ks). k \<notin> set inherited_names) \<and> ancestors_objects ks v"
    if "ks \<in> set (below p listed)" for ks
  proof -
    have "ks \<noteq> []" "p # ks \<in> set listed"
      using that by (simp_all add: below_iff)
    then obtain k ks' where ks: "ks = k # ks'" and l: "p # k # ks' \<in> set listed"
      using list.exhaust [of ks] by metis
    have "\<forall>k \<in> set (p # k # ks'). good_key k"
      and "\<forall>k \<in> set (butlast (p # k # ks')). k \<notin> set inherited_names"
      using assms(1) l by (auto simp: redactable_def)
    moreover have "ancestors_objects (k # ks') v"
      using ancestors_objects_step [OF anc [OF l]] v by auto
    ultimately show ?thesis
      using ks by simp
  qed
  have "ancestors_objects (k # ks') v"
    using ancestors_objects_step [OF anc [OF in_listed]] v by simp
  then obtain q where "v = Obj q"
    using ancestors_objects_Obj by blast
  then have obj: "case v of Obj _ \<Rightarrow> True | _ \<Rightarrow> False"
    by simp
  have apart: "\<not> proper_prefix a b"
    if "a \<in> set (below p listed)" "b \<in> set (below p listed)" for a b
  proof -
    have "p # a \<in> set listed" "p # b \<in> set listed"
      using that by (simp_all add: below_iff)
    then have "\<not> proper_prefix (p # a) (p # b)"
      by (rule pf)
    then show ?thesis by simp
  qed
  have "[p] \<notin> set listed"
  proof
    assume "[p] \<in> set listed"
    then have "\<not> proper_prefix [p] (p # k # ks')"
      using in_listed by (rule pf)
    then show False by simp
  qed
  then show ?thesis
    using v wf each obj apart unfolding redactable_def [of "below p listed"] by blast
qed

lemma collect_all_Inr:
  assumes "distinct (map fst G)"
  shows "collect [] (map (\<lambda>x. (fst x, Inr (h (fst x)))) G) = Inr (map (\<lambda>x. (fst x, h (fst x))) G)"
proof -
  have a: "map (\<lambda>r. (fst r, projr (snd r))) (map (\<lambda>x. (fst x, Inr (h (fst x)))) G) =
          map (\<lambda>x. (fst x, h (fst x))) G"
    by (induction G) auto
  have b: "spread [] (map (\<lambda>x. (fst x, h (fst x))) G) = map (\<lambda>x. (fst x, h (fst x))) G"
    using assms by (intro spread_Nil_distinct) (simp add: comp_def)
  have c: "list_all (\<lambda>r. \<not> isl (snd r)) (map (\<lambda>x. (fst x, Inr (h (fst x)))) G)"
    by (induction G) auto
  show ?thesis
    unfolding collect_Inr_iff a b using c by simp
qed

lemma redacts_listed:
  "redactable listed c \<Longrightarrow>
   recursiveToString (map (Some \<circ> join ''.'') listed) c = Inr (redacted listed c)"
proof (induction listed c rule: redacted.induct)
  case (1 listed props)
  let ?c = "Obj props"
  let ?deep = "map (join ''.'') (filter (\<lambda>ks. 2 \<le> length ks) listed)"
  let ?G = "groups ?deep"
  let ?f = "\<lambda>k v. if [k] \<in> set listed then Str ''[secret]'' else redacted (below k listed) v"
  note good = redactable_good [OF "1.prems"]
  from seperate_listed [OF good] obtain tl where
    sep: "seperateSecretsByNestLevel (map (Some \<circ> join ''.'') listed) = Inr (tl, ?deep)" and
    tl: "\<And>k. k \<in> set tl \<longleftrightarrow> [k] \<in> set listed"
    by blast
  note mG = grouped_listed [OF good]
  note dG = distinct_grouped [of ?deep]
  have grp: "groupedNestedSecrets ?deep = Inr ?G"
    using "1.prems" by (intro grouped_returns) (auto simp: redactable_def good_path_def)
  have dprops: "distinct (map fst props)"
    using "1.prems" by (simp add: redactable_def)
  \<comment> \<open>every group is the listed paths below an object of the config\<close>
  have group: "\<exists>v. map_of props p = Some v \<and> cs = map (Some \<circ> join ''.'') (below p listed) \<and>
                 recursiveToString cs v = Inr (redacted (below p listed) v) \<and> [p] \<notin> set listed"
    if "(p, cs) \<in> set ?G" for p cs
  proof -
    have "map_of ?G p = Some cs"
      using that dG by simp
    then have b: "below p listed \<noteq> []" and cs: "cs = map (Some \<circ> join ''.'') (below p listed)"
      by (simp_all add: mG split: if_splits)
    from redactable_below [OF "1.prems" b] obtain v where
      v: "map_of props p = Some v" "redactable (below p listed) v" "[p] \<notin> set listed"
      by blast
    have "(p, v) \<in> set props"
      using v(1) by (rule map_of_SomeD)
    then have "recursiveToString (map (Some \<circ> join ''.'') (below p listed)) v =
                 Inr (redacted (below p listed) v)"
      using v by (intro "1.IH") auto
    then show ?thesis
      using v cs by auto
  qed
  let ?N = "map (\<lambda>x. (fst x, redacted (below (fst x) listed) (the (map_of props (fst x))))) ?G"
  have step: "(case get_prop ?c p of Inl e \<Rightarrow> Inl e | Inr sub \<Rightarrow> recursiveToString cs sub) =
                Inr (redacted (below p listed) (the (map_of props p)))"
    if "(p, cs) \<in> set ?G" for p cs
  proof -
    from group [OF that] obtain v where
      "map_of props p = Some v" "recursiveToString cs v = Inr (redacted (below p listed) v)"
      by blast
    then show ?thesis by simp
  qed
  have nr: "nested_results ?c ?G =
          map (\<lambda>x. (fst x, Inr (redacted (below (fst x) listed) (the (map_of props (fst x)))))) ?G"
    unfolding nested_results_def
    by (intro map_cong refl) (auto simp del: get_prop.simps join.simps simp: step)
  have coll: "collect [] (nested_results ?c ?G) = Inr ?N"
    unfolding nr by (rule collect_all_Inr [OF dG])
  let ?M = "markers (filter (\<lambda>k. k \<in> set tl) (map fst props))"
  have dN: "distinct (map fst ?N)"
    using dG by (simp add: comp_def)
  have ms: "map_of (spread (spread props ?M) ?N) = map_of props ++ map_of ?M ++ map_of ?N"
    by (simp only: map_of_spread [OF dN] map_of_spread [OF distinct_markers])
  have keysN: "fst ` set ?N \<subseteq> fst ` set props"
  proof
    fix p assume "p \<in> fst ` set ?N"
    then obtain cs where "(p, cs) \<in> set ?G" by force
    from group [OF this] show "p \<in> fst ` set props"
      by (auto dest: map_of_SomeD intro: rev_image_eqI)
  qed
  have keysM: "fst ` set ?M \<subseteq> fst ` set props"
    by (auto simp: keys_markers)
  have k1: "map fst (spread props ?M) = map fst props"
    using keysM by (rule map_fst_spread_same)
  have k2: "map fst (spread (spread props ?M) ?N) = map fst props"
    using keysN k1 by (subst map_fst_spread_same) (auto simp: keys_spread)
  have mapN: "map_of ?N p = (if below p listed = [] then None
                             else Some (redacted (below p listed) (the (map_of props p))))" for p
  proof (cases "map_of ?G p")
    case None
    then have "p \<notin> fst ` set ?N"
      by (force simp: map_of_eq_None_iff)
    then show ?thesis
      using None by (simp add: map_of_eq_None_iff mG split: if_splits)
  next
    case (Some cs)
    then have "(p, cs) \<in> set ?G" by (rule map_of_SomeD)
    then have "(p, redacted (below p listed) (the (map_of props p))) \<in> set ?N"
      by force
    then have "map_of ?N p = Some (redacted (below p listed) (the (map_of props p)))"
      using dN by simp
    then show ?thesis
      using Some by (simp add: mG split: if_splits)
  qed
  have "map_of (spread (spread props ?M) ?N) k = map_of (map (\<lambda>(k, v). (k, ?f k v)) props) k" for k
  proof (cases "map_of props k")
    case None
    then have "k \<notin> fst ` set props"
      by (simp add: map_of_eq_None_iff)
    then have "k \<notin> fst ` set ?M" "k \<notin> fst ` set ?N"
      using keysM keysN by blast+
    then have "map_of ?M k = None" "map_of ?N k = None"
      by (simp_all only: map_of_eq_None_iff not_False_eq_True)
    moreover have "map_of (map (\<lambda>(k, v). (k, ?f k v)) props) k = None"
      using \<open>k \<notin> fst ` set props\<close> by (force simp: map_of_eq_None_iff)
    ultimately show ?thesis
      using None by (simp add: ms map_add_def)
  next
    case (Some v)
    then have kv: "(k, v) \<in> set props" by (rule map_of_SomeD)
    then have "(k, ?f k v) \<in> set (map (\<lambda>(k, v). (k, ?f k v)) props)"
      by force
    moreover have "distinct (map fst (map (\<lambda>(k, v). (k, ?f k v)) props))"
      using dprops by (simp add: comp_def case_prod_beta)
    ultimately have rhs: "map_of (map (\<lambda>(k, v). (k, ?f k v)) props) k = Some (?f k v)"
      by simp
    have inprops: "k \<in> set (map fst props)"
      using kv by force
    show ?thesis
    proof (cases "below k listed = []")
      case True
      then have "map_of ?N k = None"
        by (simp add: mapN)
      moreover have "map_of ?M k = (if [k] \<in> set listed then Some (Str ''[secret]'') else None)"
        using inprops by (simp add: map_of_markers tl)
      ultimately show ?thesis
        using Some True rhs by (simp add: ms map_add_def redacted_Nil)
    next
      case False
      then have "map_of ?N k = Some (redacted (below k listed) v)"
        using Some by (simp add: mapN)
      moreover have "[k] \<notin> set listed"
        using redactable_below [OF "1.prems" False] by blast
      ultimately show ?thesis
        using rhs by (simp add: ms map_add_def)
    qed
  qed
  then have "spread (spread props ?M) ?N = map (\<lambda>(k, v). (k, ?f k v)) props"
    using dprops by (intro alist_eqI) (auto simp: k2 comp_def case_prod_beta)
  then show ?case
    by (subst recursiveToString_unfold) (simp add: sep grp coll del: join.simps)
qed (simp_all add: redactable_def)

section \<open>The redactor on the store\<close>

lemma recursiveToString_s_unfold:
  "recursiveToString_s secretPaths cfg h =
     (case seperateSecretsByNestLevel secretPaths of
        Inl e \<Rightarrow> Inl e
      | Inr (secretsAtThisLevel, deepSecrets) \<Rightarrow>
          (case own_keys_s h cfg of
             Inl e \<Rightarrow> Inl e
           | Inr keys \<Rightarrow>
               (case groupedNestedSecrets deepSecrets of
                  Inl e \<Rightarrow> Inl e
                | Inr grouped \<Rightarrow>
                    (case foldl (nest_s cfg) (Inr ([], h)) grouped of
                       Inl e \<Rightarrow> Inl e
                     | Inr (nested, h1) \<Rightarrow>
                         Inr (Ref (length h1),
                              h1 @ [spread (spread (own_props_s h1 cfg)
                                      (markers_s (filter (\<lambda>k. k \<in> set secretsAtThisLevel) keys)))
                                      nested])))))"
proof -
  have "(\<lambda>acc (parent, children).
           case acc of
             Inl e \<Rightarrow> Inl e
           | Inr (nested, h') \<Rightarrow>
               (case get_prop_s h' cfg parent of
                  Inl e \<Rightarrow> Inl e
                | Inr sub \<Rightarrow>
                    (case recursiveToString_s children sub h' of
                       Inl e \<Rightarrow> Inl e
                     | Inr (r, h'') \<Rightarrow> Inr (AList.update parent r nested, h'')))) = nest_s cfg"
    by (auto simp: nest_s_def fun_eq_iff split: sum.splits prod.splits)
  then show ?thesis
    by (subst recursiveToString_s.simps)
       (simp add: markers_s_def Let_def split: sum.splits prod.splits)
qed

lemma foldl_nest_Inl [simp]: "foldl (nest_s cfg) (Inl e) G = Inl e"
  by (induction G) (simp_all add: nest_s_def)

lemma foldl_nest_invariant:
  assumes "foldl (nest_s cfg) (Inr init) G = Inr res" and "I init"
    and "\<And>acc acc' pc. pc \<in> set G \<Longrightarrow> I acc \<Longrightarrow> nest_s cfg (Inr acc) pc = Inr acc' \<Longrightarrow> I acc'"
  shows "I res"
  using assms
proof (induction G arbitrary: init)
  case Nil
  then show ?case by simp
next
  case (Cons pc G)
  show ?case
  proof (cases "nest_s cfg (Inr init) pc")
    case (Inl e)
    then show ?thesis using Cons.prems(1) by simp
  next
    case (Inr acc')
    have i: "I acc'"
      using Cons.prems(3) [of pc init acc'] Cons.prems(2) Inr by simp
    have f: "foldl (nest_s cfg) (Inr acc') G = Inr res"
      using Cons.prems(1) Inr by simp
    show ?thesis
    proof (rule Cons.IH [OF f i])
      show "I acc''" if "pc' \<in> set G" "I acc" "nest_s cfg (Inr acc) pc' = Inr acc''"
        for acc acc'' pc'
        using that Cons.prems(3) [of pc' acc acc''] by simp
    qed
  qed
qed

lemmas store_eval = recursiveToString_s_unfold nest_s_def markers_s_def sanatizedConfig_s_def
  json_roundtrip_def example_store_def numeral_2_eq_2

subsection \<open>Nothing is written, nothing old is shared\<close>

lemma closed_above_snoc:
  "closed_above n h \<Longrightarrow> \<forall>p \<in> set props. above n (snd p) \<Longrightarrow> closed_above n (h @ [props])"
  by (auto simp: closed_above_def nth_append less_Suc_eq)

lemma above_own_props:
  "closed_above n h \<Longrightarrow> above n c \<Longrightarrow> \<forall>p \<in> set (own_props_s h c). above n (snd p)"
proof (cases c)
  case (Ref a)
  assume "closed_above n h" "above n c"
  then have "\<forall>p \<in> set (h ! a). above n (snd p)" if "a < length h"
    using that by (simp add: closed_above_def Ref)
  then show ?thesis
    by (simp add: Ref)
qed auto

lemma above_get_prop:
  "closed_above n h \<Longrightarrow> above n c \<Longrightarrow> get_prop_s h c k = Inr sub \<Longrightarrow> above n sub"
proof (cases c)
  case (Ref a)
  assume "closed_above n h" "above n c" "get_prop_s h c k = Inr sub"
  then show ?thesis
    using above_own_props [of n h c]
    by (auto simp: Ref split: option.splits if_splits dest!: map_of_SomeD)
qed (auto split: sum.splits)

lemma above_update:
  "\<forall>p \<in> set al. above n (snd p) \<Longrightarrow> above n v \<Longrightarrow> \<forall>p \<in> set (AList.update k v al). above n (snd p)"
  using set_update_subset [of k v al] by auto

lemma above_spread:
  "\<forall>p \<in> set a. above n (snd p) \<Longrightarrow> \<forall>p \<in> set b. above n (snd p) \<Longrightarrow>
   \<forall>p \<in> set (spread a b). above n (snd p)"
  unfolding spread_def
proof (induction b arbitrary: a)
  case Nil
  then show ?case by simp
next
  case (Cons kv b)
  obtain k v where kv: "kv = (k, v)" by (cases kv)
  have "\<forall>p \<in> set (AList.update k v a). above n (snd p)"
    using Cons.prems kv by (intro above_update) auto
  then show ?case
    using Cons.IH [of "AList.update k v a"] Cons.prems(2) by (simp add: kv)
qed

lemma above_markers: "\<forall>p \<in> set (markers_s ks). above n (snd p)"
proof -
  have "\<forall>p \<in> set acc. above n (snd p) \<Longrightarrow>
        \<forall>p \<in> set (foldl (\<lambda>acc key. AList.update key (Imm (Str ''[secret]'')) acc) acc ks).
           above n (snd p)" for acc
  proof (induction ks arbitrary: acc)
    case Nil
    then show ?case by simp
  next
    case (Cons k ks)
    have "\<forall>p \<in> set (AList.update k (Imm (Str ''[secret]'')) acc). above n (snd p)"
      using Cons.prems by (intro above_update) simp_all
    then show ?case
      using Cons.IH by simp
  qed
  from this [of "[]"] show ?thesis by (simp add: markers_s_def)
qed

lemma redactor_store:
  "recursiveToString_s S c h = Inr (r, h') \<Longrightarrow>
   (\<exists>props. h' = h @ props) \<and> r = Ref (length h' - 1) \<and> length h < length h' \<and>
   (\<forall>n. n \<le> length h \<and> closed_above n h \<and> above n c \<longrightarrow> closed_above n h')"
proof (induction S c h arbitrary: r h' rule: recursiveToString_s.induct)
  case (1 S c h)
  from "1.prems" obtain tl deep keys G nested h1 where
    sep: "seperateSecretsByNestLevel S = Inr (tl, deep)" and
    keys: "own_keys_s h c = Inr keys" and
    grp: "groupedNestedSecrets deep = Inr G" and
    fold: "foldl (nest_s c) (Inr ([], h)) G = Inr (nested, h1)" and
    r: "r = Ref (length h1)" and
    h': "h' = h1 @ [spread (spread (own_props_s h1 c) (markers_s (filter (\<lambda>k. k \<in> set tl) keys)))
                     nested]"
    by (subst (asm) recursiveToString_s_unfold) (auto split: sum.splits prod.splits)
  let ?I = "\<lambda>acc. (\<exists>props. snd acc = h @ props) \<and>
      (\<forall>n. n \<le> length h \<and> closed_above n h \<and> above n c \<longrightarrow>
         closed_above n (snd acc) \<and> (\<forall>p \<in> set (fst acc). above n (snd p)))"
  have "?I (nested, h1)"
  proof (rule foldl_nest_invariant [OF fold, where I = ?I])
    show "?I ([], h)" by simp
  next
    fix acc acc' pc
    assume pc: "pc \<in> set G" and I: "?I acc" and step: "nest_s c (Inr acc) pc = Inr acc'"
    obtain ns hx where acc: "acc = (ns, hx)" by (cases acc)
    obtain parent children where pc': "pc = (parent, children)" by (cases pc)
    from step obtain sub rr hy where
      sub: "get_prop_s hx c parent = Inr sub" and
      rec: "recursiveToString_s children sub hx = Inr (rr, hy)" and
      acc': "acc' = (AList.update parent rr ns, hy)"
      by (auto simp: nest_s_def acc pc' split: sum.splits prod.splits)
    note IH = "1.IH" [OF sep refl keys grp pc [unfolded pc'] refl refl refl sub rec]
    from I obtain props where hx: "hx = h @ props"
      by (auto simp: acc)
    from IH obtain props' where hy: "hy = hx @ props'"
      by blast
    have "closed_above n hy \<and> (\<forall>p \<in> set (AList.update parent rr ns). above n (snd p))"
      if n: "n \<le> length h \<and> closed_above n h \<and> above n c" for n
    proof -
      have cx: "closed_above n hx" and ns: "\<forall>p \<in> set ns. above n (snd p)"
        using I n by (auto simp: acc)
      have "above n sub"
        using cx n sub by (auto intro: above_get_prop)
      then have "closed_above n hy"
        using IH cx n hx by auto
      moreover have "rr = Ref (length hy - 1)" "length hx < length hy"
        using IH by auto
      then have "above n rr"
        using n hx by auto
      ultimately show ?thesis
        using ns by (simp add: above_update)
    qed
    then show "?I acc'"
      using hx hy by (simp add: acc')
  qed
  then obtain props where h1: "h1 = h @ props"
    and cl: "\<And>n. n \<le> length h \<and> closed_above n h \<and> above n c \<Longrightarrow>
               closed_above n h1 \<and> (\<forall>p \<in> set nested. above n (snd p))"
    by auto
  have "closed_above n h'" if n: "n \<le> length h \<and> closed_above n h \<and> above n c" for n
    unfolding h'
    using cl [OF n] n
    by (intro closed_above_snoc above_spread above_own_props above_markers) auto
  then show ?case
    by (simp add: r h' h1)
qed

lemma alloc_store:
  "alloc j h = (x, h') \<Longrightarrow>
   (\<exists>props. h' = h @ props) \<and>
   (\<forall>n. n \<le> length h \<and> closed_above n h \<longrightarrow> closed_above n h' \<and> above n x)"
  and alloc_props_store:
  "alloc_props js h = (ps, h') \<Longrightarrow>
   (\<exists>props. h' = h @ props) \<and>
   (\<forall>n. n \<le> length h \<and> closed_above n h \<longrightarrow>
      closed_above n h' \<and> (\<forall>p \<in> set ps. above n (snd p)))"
proof (induction j h and js h arbitrary: x h' and ps h' rule: alloc_alloc_props.induct)
  case (1 props h)
  from "1.prems" obtain qs h1 where
    a: "alloc_props props h = (qs, h1)" and x: "x = Ref (length h1)" and h': "h' = h1 @ [qs]"
    by (auto split: prod.splits)
  from "1.IH" [OF a] obtain new where h1: "h1 = h @ new"
    and cl: "\<And>n. n \<le> length h \<and> closed_above n h \<Longrightarrow>
               closed_above n h1 \<and> (\<forall>p \<in> set qs. above n (snd p))"
    by auto
  have "closed_above n h' \<and> above n x" if n: "n \<le> length h \<and> closed_above n h" for n
  proof -
    have "closed_above n (h1 @ [qs])"
      using cl [OF n] by (intro closed_above_snoc) auto
    then show ?thesis
      using n by (simp add: h' x h1)
  qed
  then show ?case
    by (simp add: h' h1)
next
  case (3 h)
  then show ?case by simp
next
  case (4 k v rest h)
  from "4.prems" obtain y h1 qs where
    a: "alloc v h = (y, h1)" and b: "alloc_props rest h1 = (qs, h')" and ps: "ps = (k, y) # qs"
    by (auto split: prod.splits)
  from "4.IH"(1) [OF a] obtain new where h1: "h1 = h @ new"
    and c1: "\<And>n. n \<le> length h \<and> closed_above n h \<Longrightarrow> closed_above n h1 \<and> above n y"
    by auto
  from "4.IH"(2) [OF a [symmetric] b] obtain new' where h': "h' = h1 @ new'"
    and c2: "\<And>n. n \<le> length h1 \<and> closed_above n h1 \<Longrightarrow>
               closed_above n h' \<and> (\<forall>p \<in> set qs. above n (snd p))"
    by auto
  show ?case
    using c1 c2 by (auto simp: ps h' h1)
qed auto

lemma reach_above:
  "reach h v b \<Longrightarrow> closed_above n h \<Longrightarrow> above n v \<Longrightarrow> n \<le> b"
proof (induction rule: reach.induct)
  case (reach_self a)
  then show ?case by simp
next
  case (reach_prop a k v b)
  then have "above n v"
    by (force simp: closed_above_def)
  then show ?case
    using reach_prop by simp
qed

lemma sanitized_store:
  assumes "sanatizedConfig_s secretPaths c h = Inr (r, h')"
  shows "(\<exists>props. h' = h @ props) \<and> (\<forall>b. reach h' r b \<longrightarrow> length h \<le> b)"
proof -
  from assms obtain tree copy c1 h1 where
    "read_s (length h) h c = Some tree" "json_roundtrip tree = Inr copy" and
    al: "alloc copy h = (c1, h1)" and
    rec: "recursiveToString_s (map Some secretPaths) c1 h1 = Inr (r, h')"
    by (auto simp: sanatizedConfig_s_def split: option.splits sum.splits prod.splits)
  have cl0: "closed_above (length h) h"
    by (auto simp: closed_above_def)
  from alloc_store [OF al] cl0 obtain new where h1: "h1 = h @ new"
    and c1: "closed_above (length h) h1" "above (length h) c1"
    by auto
  from redactor_store [OF rec] c1 h1 obtain new' where h': "h' = h1 @ new'"
    and c2: "closed_above (length h) h'" and r: "r = Ref (length h' - 1)" "length h1 < length h'"
    by auto
  have "above (length h) r"
    using r h1 by auto
  then show ?thesis
    using c2 h' h1 by (auto dest: reach_above)
qed

subsection \<open>The store holds what the value model computes\<close>

lemma repr_mono: "repr h v j \<Longrightarrow> repr (h @ new) v j"
proof (induction rule: repr.induct)
  case (repr_Imm v)
  then show ?case by (rule repr.repr_Imm)
next
  case (repr_Ref a props)
  have "props_repr (h @ new) (h ! a) props"
    using repr_Ref.IH by (rule list_all2_mono) simp
  then show ?case
    using repr_Ref.hyps by (intro repr.repr_Ref) (simp_all add: nth_append)
qed

lemma props_repr_mono: "props_repr h ps qs \<Longrightarrow> props_repr (h @ new) ps qs"
  by (erule list_all2_mono) (simp add: repr_mono)

lemma repr_own_props: "repr h c j \<Longrightarrow> props_repr h (own_props_s h c) (own_props j)"
proof (induction rule: repr.cases)
  case (repr_Imm v)
  have "props_repr h (map (\<lambda>(k, x). (k, Imm x)) xs) xs" for xs
    by (induction xs) (auto intro: repr.repr_Imm)
  then show ?case
    using repr_Imm by simp
next
  case (repr_Ref a props)
  then show ?case by simp
qed

lemma repr_own_keys: "repr h c j \<Longrightarrow> own_keys_s h c = own_keys j"
proof (induction rule: repr.cases)
  case (repr_Imm v)
  then show ?case by simp
next
  case (repr_Ref a props)
  have "map fst ps = map fst qs" if "props_repr h ps qs" for ps qs
    using that by (induction rule: list_all2_induct) auto
  then show ?case
    using repr_Ref by simp
qed

lemma props_repr_map_of:
  "props_repr h ps qs \<Longrightarrow>
   (map_of ps k = None \<and> map_of qs k = None) \<or>
   (\<exists>x y. map_of ps k = Some x \<and> map_of qs k = Some y \<and> repr h x y)"
  by (induction rule: list_all2_induct) auto

lemma repr_get_prop:
  "repr h c j \<Longrightarrow>
   (case get_prop j k of
      Inl e \<Rightarrow> get_prop_s h c k = Inl e
    | Inr y \<Rightarrow> \<exists>x. get_prop_s h c k = Inr x \<and> repr h x y)"
proof (induction rule: repr.cases)
  case (repr_Imm v)
  then show ?case
    by (auto split: sum.splits intro: repr.repr_Imm)
next
  case (repr_Ref a props)
  then show ?case
    using props_repr_map_of [of h "h ! a" props k]
    by (auto intro: repr.repr_Imm)
qed

lemma props_repr_update:
  "props_repr h ps qs \<Longrightarrow> repr h x y \<Longrightarrow>
   props_repr h (AList.update k x ps) (AList.update k y qs)"
  by (induction rule: list_all2_induct) auto

lemma props_repr_spread:
  "props_repr h b b' \<Longrightarrow> props_repr h a a' \<Longrightarrow> props_repr h (spread a b) (spread a' b')"
  unfolding spread_def
proof (induction arbitrary: a a' rule: list_all2_induct)
  case Nil
  then show ?case by simp
next
  case (Cons p ps q qs)
  have "props_repr h (AList.update (fst p) (snd p) a) (AList.update (fst q) (snd q) a')"
    using Cons.hyps(1) Cons.prems by (auto intro: props_repr_update)
  from Cons.IH [OF this] show ?case
    by (simp add: case_prod_beta)
qed

lemma props_repr_markers: "props_repr h (markers_s ks) (markers ks)"
proof -
  have "props_repr h acc acc' \<Longrightarrow>
        props_repr h (foldl (\<lambda>acc key. AList.update key (Imm (Str ''[secret]'')) acc) acc ks)
                     (foldl (\<lambda>acc key. AList.update key (Str ''[secret]'') acc) acc' ks)"
    for acc acc'
  proof (induction ks arbitrary: acc acc')
    case Nil
    then show ?case by simp
  next
    case (Cons k ks)
    have "props_repr h (AList.update k (Imm (Str ''[secret]'')) acc)
            (AList.update k (Str ''[secret]'') acc')"
      using Cons.prems by (intro props_repr_update repr.repr_Imm)
    from Cons.IH [OF this] show ?case by simp
  qed
  from this [of "[]" "[]"] show ?thesis
    by (simp add: markers_s_def markers_def)
qed

lemma nest_refines:
  assumes "\<And>p cs sub c' h'. (p, cs) \<in> set G \<Longrightarrow> get_prop j p = Inr sub \<Longrightarrow> repr h' c' sub \<Longrightarrow>
             refines cs sub c' h'"
    and "repr hx c j" and "props_repr hx ns nv"
  shows "case collect nv (nested_results j G) of
           Inl e \<Rightarrow> foldl (nest_s c) (Inr (ns, hx)) G = Inl e
         | Inr N \<Rightarrow> \<exists>ns' hx' new. foldl (nest_s c) (Inr (ns, hx)) G = Inr (ns', hx') \<and>
                      props_repr hx' ns' N \<and> hx' = hx @ new"
  using assms
proof (induction G arbitrary: ns nv hx)
  case Nil
  then show ?case by simp
next
  case (Cons pc G)
  obtain p cs where pc: "pc = (p, cs)" by (cases pc)
  show ?case
  proof (cases "get_prop j p")
    case (Inl e)
    then have "get_prop_s hx c p = Inl e"
      using repr_get_prop [OF Cons.prems(2), of p] by simp
    then show ?thesis
      using Inl by (simp add: pc nest_s_def)
  next
    case sub: (Inr sub)
    then obtain x where x: "get_prop_s hx c p = Inr x" "repr hx x sub"
      using repr_get_prop [OF Cons.prems(2), of p] by auto
    have ref: "refines cs sub x hx"
      using Cons.prems(1) [of p cs sub hx x] sub x by (simp add: pc)
    show ?thesis
    proof (cases "recursiveToString cs sub")
      case (Inl e)
      then have "recursiveToString_s cs x hx = Inl e"
        using ref by (simp add: refines_def)
      then show ?thesis
        using Inl sub x by (simp add: pc nest_s_def)
    next
      case v: (Inr v)
      then obtain r hy where r: "recursiveToString_s cs x hx = Inr (r, hy)" "repr hy r v"
        using ref by (auto simp: refines_def)
      from redactor_store [OF r(1)] obtain new where hy: "hy = hx @ new"
        by blast
      have step: "nest_s c (Inr (ns, hx)) pc = Inr (AList.update p r ns, hy)"
        using x r by (simp add: pc nest_s_def)
      have "props_repr hy (AList.update p r ns) (AList.update p v nv)"
        using Cons.prems(3) r(2) unfolding hy
        by (intro props_repr_update props_repr_mono) simp_all
      moreover have "repr hy c j"
        unfolding hy using Cons.prems(2) by (rule repr_mono)
      moreover have "refines cs' sub' c' h'"
        if "(p', cs') \<in> set G" "get_prop j p' = Inr sub'" "repr h' c' sub'"
        for p' cs' sub' c' h'
        using that Cons.prems(1) [of p' cs' sub' h' c'] by simp
      ultimately have
        "case collect (AList.update p v nv) (nested_results j G) of
           Inl e \<Rightarrow> foldl (nest_s c) (Inr (AList.update p r ns, hy)) G = Inl e
         | Inr N \<Rightarrow> \<exists>ns' hx' new. foldl (nest_s c) (Inr (AList.update p r ns, hy)) G = Inr (ns', hx') \<and>
                      props_repr hx' ns' N \<and> hx' = hy @ new"
        by (intro Cons.IH)
      then show ?thesis
        using sub v step by (auto simp: pc hy split: sum.splits)
    qed
  qed
qed

lemma redactor_refines: "repr h c j \<Longrightarrow> refines S j c h"
proof (induction S j arbitrary: c h rule: recursiveToString.induct)
  case (1 S j)
  note keys = repr_own_keys [OF "1.prems"]
  show ?case
  proof (cases "seperateSecretsByNestLevel S")
    case (Inl e)
    then show ?thesis
      by (simp add: refines_def recursiveToString_unfold recursiveToString_s_unfold)
  next
    case sep0: (Inr b)
    obtain tl deep where sep: "seperateSecretsByNestLevel S = Inr (tl, deep)"
      using sep0 by (cases b) simp
    show ?thesis
    proof (cases "own_keys j")
      case (Inl e)
      then show ?thesis
        by (simp add: refines_def recursiveToString_unfold recursiveToString_s_unfold sep keys)
    next
      case ks: (Inr ks)
      show ?thesis
      proof (cases "groupedNestedSecrets deep")
        case (Inl e)
        then show ?thesis
          by (simp add: refines_def recursiveToString_unfold recursiveToString_s_unfold
                sep keys ks)
      next
        case G: (Inr G)
        have sub: "refines cs sub c' h'"
          if "(p, cs) \<in> set G" "get_prop j p = Inr sub" "repr h' c' sub" for p cs sub c' h'
          using "1.IH" [OF sep refl ks G refl that(1) refl that(2) that(3)] .
        have nest: "case collect [] (nested_results j G) of
            Inl e \<Rightarrow> foldl (nest_s c) (Inr ([], h)) G = Inl e
          | Inr N \<Rightarrow> \<exists>ns' hx' new. foldl (nest_s c) (Inr ([], h)) G = Inr (ns', hx') \<and>
                       props_repr hx' ns' N \<and> hx' = h @ new"
        proof (rule nest_refines)
          show "refines cs sub' c' h'"
            if "(p, cs) \<in> set G" "get_prop j p = Inr sub'" "repr h' c' sub'" for p cs sub' c' h'
            using that by (rule sub)
          show "repr h c j" by fact
          show "props_repr h [] []" by simp
        qed
        show ?thesis
        proof (cases "collect [] (nested_results j G)")
          case (Inl e)
          then show ?thesis
            using nest
            by (simp add: refines_def recursiveToString_unfold recursiveToString_s_unfold
                  sep keys ks G)
        next
          case N: (Inr N)
          then obtain ns h1 new where
            fold: "foldl (nest_s c) (Inr ([], h)) G = Inr (ns, h1)" and
            ns: "props_repr h1 ns N" and h1: "h1 = h @ new"
            using nest by auto
          let ?ps = "spread (spread (own_props_s h1 c) (markers_s (filter (\<lambda>k. k \<in> set tl) ks))) ns"
          let ?qs = "spread (spread (own_props j) (markers (filter (\<lambda>k. k \<in> set tl) ks))) N"
          have "repr h1 c j"
            unfolding h1 using "1.prems" by (rule repr_mono)
          then have "props_repr h1 ?ps ?qs"
            using ns by (intro props_repr_spread props_repr_markers repr_own_props)
          then have "props_repr (h1 @ [?ps]) ?ps ?qs"
            by (rule props_repr_mono)
          then have "repr (h1 @ [?ps]) (Ref (length h1)) (Obj ?qs)"
            by (intro repr.repr_Ref) simp_all
          then show ?thesis
            using N fold
            by (simp add: refines_def recursiveToString_unfold recursiveToString_s_unfold
                  sep keys ks G)
        qed
      qed
    qed
  qed
qed

lemma those_map_all2:
  "those (map f ps) = Some qs \<Longrightarrow> list_all2 (\<lambda>p q. Some q = f p) ps qs"
  by (induction ps arbitrary: qs) (auto split: option.splits)

lemma read_repr: "read_s n h c = Some j \<Longrightarrow> repr h c j"
proof (induction n h c arbitrary: j rule: read_s.induct)
  case (1 n h v)
  then show ?case by (auto intro: repr.repr_Imm)
next
  case (2 h a)
  then show ?case by simp
next
  case (3 n h a)
  from "3.prems" obtain props where a: "a < length h" and j: "j = Obj props" and
    th: "those (map (\<lambda>(k, v). map_option (Pair k) (read_s n h v)) (h ! a)) = Some props"
    by (auto split: if_splits)
  have "list_all2 (\<lambda>x y. Some y = (case x of (k, v) \<Rightarrow> map_option (Pair k) (read_s n h v)))
          (h ! a) props"
    using th by (rule those_map_all2)
  then have "props_repr h (h ! a) props"
  proof (rule list.rel_mono_strong)
    fix x y
    assume x: "x \<in> set (h ! a)"
      and e: "Some y = (case x of (k, v) \<Rightarrow> map_option (Pair k) (read_s n h v))"
    from e [symmetric] obtain w where "read_s n h (snd x) = Some w" "y = (fst x, w)"
      by (cases x) auto
    then show "fst x = fst y \<and> repr h (snd x) (snd y)"
      using "3.IH" [OF a, of x "fst x" "snd x" w] x by simp
  qed
  then show ?case
    using a j by (auto intro: repr.repr_Ref)
qed

lemma alloc_repr: "alloc j h = (x, h') \<Longrightarrow> repr h' x j"
  and alloc_props_repr: "alloc_props js h = (ps, h') \<Longrightarrow> props_repr h' ps js"
proof (induction j h and js h arbitrary: x h' and ps h' rule: alloc_alloc_props.induct)
  case (1 props h)
  from "1.prems" obtain qs h1 where
    a: "alloc_props props h = (qs, h1)" and x: "x = Ref (length h1)" and h': "h' = h1 @ [qs]"
    by (auto split: prod.splits)
  have "props_repr (h1 @ [qs]) qs props"
    using "1.IH" [OF a] by (rule props_repr_mono)
  then show ?case
    unfolding x h' by (intro repr.repr_Ref) simp_all
next
  case (3 h)
  then show ?case by simp
next
  case (4 k v rest h)
  from "4.prems" obtain y h1 qs where
    a: "alloc v h = (y, h1)" and b: "alloc_props rest h1 = (qs, h')" and ps: "ps = (k, y) # qs"
    by (auto split: prod.splits)
  from alloc_props_store [OF b] obtain new where h': "h' = h1 @ new"
    by blast
  have "repr h' y v"
    unfolding h' using "4.IH"(1) [OF a] by (rule repr_mono)
  then show ?case
    using "4.IH"(2) [OF a [symmetric] b] by (simp add: ps)
qed (auto intro: repr.repr_Imm)

lemma sanitized_refines:
  assumes "sanatizedConfig_s secretPaths c h = Inr (r, h')"
  shows "\<exists>tree copy j'. read_s (length h) h c = Some tree \<and> json_roundtrip tree = Inr copy \<and>
           recursiveToString (map Some secretPaths) copy = Inr j' \<and> repr h' r j'"
proof -
  from assms obtain tree copy c1 h1 where
    t: "read_s (length h) h c = Some tree" "json_roundtrip tree = Inr copy" and
    al: "alloc copy h = (c1, h1)" and
    rec: "recursiveToString_s (map Some secretPaths) c1 h1 = Inr (r, h')"
    by (auto simp: sanatizedConfig_s_def split: option.splits sum.splits prod.splits)
  have "refines (map Some secretPaths) copy c1 h1"
    using alloc_repr [OF al] by (rule redactor_refines)
  then show ?thesis
    using t rec by (auto simp: refines_def split: sum.splits)
qed

section \<open>Redaction is idempotent\<close>

text \<open>
  C8. Redacting the output of a redaction again, with the same secret paths, gives that
  output: for every list of secret paths and every config (a value whose objects have
  each key once) on which the redactor returns.
\<close>

theorem redaction_idempotent:
  assumes "wf_val cfg" and "recursiveToString (map Some secretPaths) cfg = Inr sanitized"
  shows "recursiveToString (map Some secretPaths) sanitized = Inr sanitized"
  using assms by (rule redact_idem)

theorem redaction_idempotent_witness:
  "wf_val (Obj [(''db'', Obj [(''password'', Str ''x''), (''name'', Str ''n'')]),
                (''token'', Str ''t'')]) \<and>
   recursiveToString (map Some [''db.password'', ''token''])
     (Obj [(''db'', Obj [(''password'', Str ''x''), (''name'', Str ''n'')]), (''token'', Str ''t'')]) =
     Inr (Obj [(''db'', Obj [(''password'', Str ''[secret]''), (''name'', Str ''n'')]),
               (''token'', Str ''[secret]'')]) \<and>
   recursiveToString (map Some [''db.password'', ''token''])
     (Obj [(''db'', Obj [(''password'', Str ''[secret]''), (''name'', Str ''n'')]),
           (''token'', Str ''[secret]'')]) =
     Inr (Obj [(''db'', Obj [(''password'', Str ''[secret]''), (''name'', Str ''n'')]),
               (''token'', Str ''[secret]'')])"
proof -
  have w: "wf_val (Obj [(''db'', Obj [(''password'', Str ''x''), (''name'', Str ''n'')]),
                        (''token'', Str ''t'')])"
    by simp
  have r: "recursiveToString (map Some [''db.password'', ''token''])
     (Obj [(''db'', Obj [(''password'', Str ''x''), (''name'', Str ''n'')]), (''token'', Str ''t'')]) =
     Inr (Obj [(''db'', Obj [(''password'', Str ''[secret]''), (''name'', Str ''n'')]),
               (''token'', Str ''[secret]'')])"
    by (simp add: redactor_eval)
  show ?thesis
    using redaction_idempotent [OF w r] w r by simp
qed

section \<open>What is redacted\<close>

text \<open>
  C3 as stated fails on secret-path lists and configs that the redactor accepts. With a
  path and its descendant both listed, the recursive result overrides the marker: \<open>a\<close> is
  listed but not replaced, and \<open>a.c\<close>, below the listed \<open>a\<close>, stays visible. With a listed
  path below a string, the string, which is neither listed nor below a listed path, is
  replaced by the object of its characters. A listed path whose parent is not a key of the
  config (as for a key that itself contains a dot) makes the redactor raise, and so does
  a listed path below a key with a name that plain objects inherit, although the config
  has that key. And what \<open>recursiveToString\<close> leaves unchanged it does not copy: with
  \<open>token\<close> listed, the property \<open>db\<close> of the output is the very object at address 0 that
  is the \<open>db\<close> of the input.
\<close>

theorem redaction_counterexample:
  "recursiveToString (map Some [''a'', ''a.b''])
     (Obj [(''a'', Obj [(''b'', Str ''x''), (''c'', Str ''y'')])]) =
     Inr (Obj [(''a'', Obj [(''b'', Str ''[secret]''), (''c'', Str ''y'')])]) \<and>
   recursiveToString (map Some [''a.b'']) (Obj [(''a'', Str ''hi'')]) =
     Inr (Obj [(''a'', Obj [(''0'', Str ''h''), (''1'', Str ''i'')])]) \<and>
   recursiveToString (map Some [''a.b'']) (Obj [(''a.b'', Str ''hi'')]) = Inl TypeError \<and>
   recursiveToString (map Some [''constructor.name''])
     (Obj [(''constructor'', Obj [(''name'', Str ''x'')])]) = Inl TypeError \<and>
   recursiveToString_s [Some ''token''] (Ref 1)
     [[(''password'', Imm (Str ''x'')), (''name'', Imm (Str ''n''))],
      [(''db'', Ref 0), (''token'', Imm (Str ''t''))]] =
     Inr (Ref 2,
          [[(''password'', Imm (Str ''x'')), (''name'', Imm (Str ''n''))],
           [(''db'', Ref 0), (''token'', Imm (Str ''t''))],
           [(''db'', Ref 0), (''token'', Imm (Str ''[secret]''))]])"
  by (simp add: redactor_eval store_eval decimal.simps digit_char_def upt_rec)

text \<open>
  C3, amended. Let the secret paths be the dotted paths of chains of keys (each key not
  empty, without dot or line terminator, and each key but the last of a chain not a name
  that plain objects inherit), none a proper ancestor of another, and let the config be
  an object (its objects having each key once) in which every proper ancestor of a listed
  path is an object. Then the redactor returns the config in which exactly the values at
  the listed paths are replaced by \<open>[secret]\<close> and every other value is as it was.

  On every input, \<open>recursiveToString\<close> writes to no object: when it returns, the store is
  the store it started from with new objects after it, the last of which is the result;
  and on a config that represents a value it does what the redactor on values does.
  \<open>toStringCurried\<close> redacts a JSON copy of the config: the store is the store it started
  from with new objects after it, no object that was there before is reachable from the
  sanitized config, and the sanitized config represents the redaction of the JSON copy
  (for a config in which no property \<open>toJSON\<close> holds a function).
\<close>

theorem redaction_exact:
  "(redactable listed cfg \<longrightarrow>
      recursiveToString (map (Some \<circ> join ''.'') listed) cfg = Inr (redacted listed cfg)) \<and>
   (\<forall>r h'. recursiveToString_s secretPaths c h = Inr (r, h') \<longrightarrow>
      (\<exists>props. h' = h @ props) \<and> r = Ref (length h' - 1) \<and> length h < length h') \<and>
   (\<forall>j. repr h c j \<longrightarrow> refines secretPaths j c h) \<and>
   (\<forall>r h' tree. sanatizedConfig_s paths c h = Inr (r, h') \<and>
        read_s (length h) h c = Some tree \<and> no_toJSON tree \<longrightarrow>
      (\<exists>props. h' = h @ props) \<and>
      (\<forall>b. reach h' r b \<longrightarrow> length h \<le> b) \<and>
      (\<exists>copy j'. json_roundtrip tree = Inr copy \<and>
         recursiveToString (map Some paths) copy = Inr j' \<and> repr h' r j'))"
proof -
  have "(\<exists>props. h' = h @ props) \<and> (\<forall>b. reach h' r b \<longrightarrow> length h \<le> b) \<and>
      (\<exists>copy j'. json_roundtrip tree = Inr copy \<and>
         recursiveToString (map Some paths) copy = Inr j' \<and> repr h' r j')"
    if "sanatizedConfig_s paths c h = Inr (r, h')" "read_s (length h) h c = Some tree"
    for r h' tree
    using that sanitized_store [of paths c h r h'] sanitized_refines [of paths c h r h']
    by auto
  then show ?thesis
    using redacts_listed [of listed cfg] redactor_store [of secretPaths c h]
      redactor_refines [of h c _ secretPaths]
    by blast
qed

theorem redaction_exact_witness:
  "redactable [[''db'', ''password''], [''token'']]
     (Obj [(''db'', Obj [(''password'', Str ''x''), (''name'', Str ''n'')]), (''token'', Str ''t'')]) \<and>
   recursiveToString [Some ''db.password'', Some ''token'']
     (Obj [(''db'', Obj [(''password'', Str ''x''), (''name'', Str ''n'')]), (''token'', Str ''t'')]) =
     Inr (Obj [(''db'', Obj [(''password'', Str ''[secret]''), (''name'', Str ''n'')]),
               (''token'', Str ''[secret]'')]) \<and>
   repr example_store (Ref 1)
     (Obj [(''db'', Obj [(''password'', Str ''x''), (''name'', Str ''n'')]), (''token'', Str ''t'')]) \<and>
   recursiveToString_s [Some ''db.password'', Some ''token''] (Ref 1) example_store =
     Inr (Ref 3, example_store @
       [[(''password'', Imm (Str ''[secret]'')), (''name'', Imm (Str ''n''))],
        [(''db'', Ref 2), (''token'', Imm (Str ''[secret]''))]]) \<and>
   repr (example_store @
       [[(''password'', Imm (Str ''[secret]'')), (''name'', Imm (Str ''n''))],
        [(''db'', Ref 2), (''token'', Imm (Str ''[secret]''))]]) (Ref 3)
     (Obj [(''db'', Obj [(''password'', Str ''[secret]''), (''name'', Str ''n'')]),
           (''token'', Str ''[secret]'')]) \<and>
   sanatizedConfig_s [''db.password'', ''token''] (Ref 1) example_store =
     Inr (Ref 5, example_store @
       [[(''password'', Imm (Str ''x'')), (''name'', Imm (Str ''n''))],
        [(''db'', Ref 2), (''token'', Imm (Str ''t''))],
        [(''password'', Imm (Str ''[secret]'')), (''name'', Imm (Str ''n''))],
        [(''db'', Ref 4), (''token'', Imm (Str ''[secret]''))]]) \<and>
   \<not> reach (example_store @
       [[(''password'', Imm (Str ''x'')), (''name'', Imm (Str ''n''))],
        [(''db'', Ref 2), (''token'', Imm (Str ''t''))],
        [(''password'', Imm (Str ''[secret]'')), (''name'', Imm (Str ''n''))],
        [(''db'', Ref 4), (''token'', Imm (Str ''[secret]''))]]) (Ref 5) 0 \<and>
   \<not> reach (example_store @
       [[(''password'', Imm (Str ''x'')), (''name'', Imm (Str ''n''))],
        [(''db'', Ref 2), (''token'', Imm (Str ''t''))],
        [(''password'', Imm (Str ''[secret]'')), (''name'', Imm (Str ''n''))],
        [(''db'', Ref 4), (''token'', Imm (Str ''[secret]''))]]) (Ref 5) 1"
proof -
  let ?cfg = "Obj [(''db'', Obj [(''password'', Str ''x''), (''name'', Str ''n'')]),
                   (''token'', Str ''t'')]"
  note exact = redaction_exact
    [of "[[''db'', ''password''], [''token'']]" ?cfg "[Some ''db.password'', Some ''token'']"
        "Ref 1" example_store "[''db.password'', ''token'']"]
  have r: "redactable [[''db'', ''password''], [''token'']] ?cfg"
    by (simp add: redactable_def good_key_def is_line_terminator_def inherited_names_def
          object_prototype_functions_def)
  have v: "recursiveToString [Some ''db.password'', Some ''token''] ?cfg =
      Inr (Obj [(''db'', Obj [(''password'', Str ''[secret]''), (''name'', Str ''n'')]),
                (''token'', Str ''[secret]'')])"
    using exact r by simp
  have rd: "read_s (length example_store) example_store (Ref 1) = Some ?cfg"
    by (simp add: example_store_def numeral_2_eq_2)
  then have c: "repr example_store (Ref 1) ?cfg"
    by (rule read_repr)
  have nj: "no_toJSON ?cfg"
    by simp
  have s: "recursiveToString_s [Some ''db.password'', Some ''token''] (Ref 1) example_store =
     Inr (Ref 3, example_store @
       [[(''password'', Imm (Str ''[secret]'')), (''name'', Imm (Str ''n''))],
        [(''db'', Ref 2), (''token'', Imm (Str ''[secret]''))]])"
    by (simp add: redactor_eval store_eval)
  have "refines [Some ''db.password'', Some ''token''] ?cfg (Ref 1) example_store"
    using exact c by blast
  then have rs: "repr (example_store @
       [[(''password'', Imm (Str ''[secret]'')), (''name'', Imm (Str ''n''))],
        [(''db'', Ref 2), (''token'', Imm (Str ''[secret]''))]]) (Ref 3)
     (Obj [(''db'', Obj [(''password'', Str ''[secret]''), (''name'', Str ''n'')]),
           (''token'', Str ''[secret]'')])"
    using s by (auto simp: refines_def v)
  have t: "sanatizedConfig_s [''db.password'', ''token''] (Ref 1) example_store =
     Inr (Ref 5, example_store @
       [[(''password'', Imm (Str ''x'')), (''name'', Imm (Str ''n''))],
        [(''db'', Ref 2), (''token'', Imm (Str ''t''))],
        [(''password'', Imm (Str ''[secret]'')), (''name'', Imm (Str ''n''))],
        [(''db'', Ref 4), (''token'', Imm (Str ''[secret]''))]])"
    by (simp add: redactor_eval store_eval)
  have "length example_store \<le> b"
    if "reach (example_store @
       [[(''password'', Imm (Str ''x'')), (''name'', Imm (Str ''n''))],
        [(''db'', Ref 2), (''token'', Imm (Str ''t''))],
        [(''password'', Imm (Str ''[secret]'')), (''name'', Imm (Str ''n''))],
        [(''db'', Ref 4), (''token'', Imm (Str ''[secret]''))]]) (Ref 5) b" for b
    using exact t rd nj that by blast
  from this [of 0] this [of 1] show ?thesis
    using r v c s rs t by (auto simp: example_store_def)
qed

end
